theory Spec2Isabelle
  imports Main "HOL-Library.Word"
begin

unbundle bit_operations_syntax

section \<open>The tile-sheet decoder of \<open>scripts/inspect-tiles.py\<close>\<close>

text \<open>
  The theory embeds \<open>load_png\<close> (lines 37 to 65 of the script): the chunk loop, the
  reading of width and height, the scanline loop with its two row filters and the
  unpacking of two 4-bit palette indices per byte.

  A Python \<open>bytes\<close> object is a list of 8-bit words; the integers Python computes with
  are \<open>int\<close> (pixel and row values) or \<open>nat\<close> (offsets, sizes and counts, which never
  go below zero here). Every exception the code can raise is a value of \<open>error\<close>.
\<close>

subsection \<open>Data\<close>

type_synonym byte = "8 word"

datatype error =
    StructError          \<comment> \<open>\<open>struct.error\<close>: buffer of the wrong size for \<open>struct.unpack\<close>\<close>
  | UnicodeDecodeError   \<comment> \<open>\<open>bytes.decode('ascii')\<close> on a byte above 127\<close>
  | KeyError             \<comment> \<open>missing key of the \<open>chunks\<close> dictionary\<close>
  | IndexError           \<comment> \<open>index out of range, on \<open>bytes\<close> or on a list\<close>
  | ZlibError            \<comment> \<open>\<open>zlib.error\<close> of \<open>zlib.decompress\<close>\<close>

text \<open>The dictionary \<open>chunks\<close>: chunk type to the list of payloads, in file order.\<close>

type_synonym chunks = "string \<rightharpoonup> byte list list"

text \<open>The state of the scanline loop: \<open>idx\<close>, \<open>prev\<close> and \<open>pixels\<close>.\<close>

type_synonym row_state = "nat \<times> int list \<times> int list list"

subsection \<open>Slices, \<open>struct.unpack\<close> and \<open>decode\<close>\<close>

text \<open>\<open>xs[a:b]\<close> for \<open>0 \<le> a \<le> b\<close>: a slice is cut at the end of \<open>xs\<close>, it never raises.\<close>

definition slice :: "'a list \<Rightarrow> nat \<Rightarrow> nat \<Rightarrow> 'a list" where
  "slice xs a b = take (b - a) (drop a xs)"

text \<open>Big-endian value of a byte string, most significant byte first.\<close>

definition be_nat :: "byte list \<Rightarrow> nat" where
  "be_nat bs = foldl (\<lambda>acc b. acc * 256 + unat b) 0 bs"

text \<open>\<open>struct.unpack('>I', bs)[0]\<close>: exactly four bytes, else \<open>struct.error\<close>.\<close>

definition unpack_I :: "byte list \<Rightarrow> error + nat" where
  "unpack_I bs = (if length bs = 4 then Inr (be_nat bs) else Inl StructError)"

text \<open>\<open>struct.unpack('>II', bs)\<close>: exactly eight bytes, else \<open>struct.error\<close>.\<close>

definition unpack_II :: "byte list \<Rightarrow> error + (nat \<times> nat)" where
  "unpack_II bs =
     (if length bs = 8 then Inr (be_nat (take 4 bs), be_nat (drop 4 bs))
      else Inl StructError)"

text \<open>\<open>bs.decode('ascii')\<close>: every byte below 128, else \<open>UnicodeDecodeError\<close>.\<close>

definition decode_ascii :: "byte list \<Rightarrow> error + string" where
  "decode_ascii bs =
     (if list_all (\<lambda>b. unat b < 128) bs then Inr (map (\<lambda>b. char_of (unat b)) bs)
      else Inl UnicodeDecodeError)"

subsection \<open>The chunk loop (lines 39 to 46)\<close>

text \<open>
  One iteration of \<open>while i < len(data)\<close>: the length, the type, the creation of the
  dictionary entry, the append of the payload slice, and the new offset.
\<close>

definition chunk_body :: "byte list \<Rightarrow> nat \<Rightarrow> chunks \<Rightarrow> error + (nat \<times> chunks)" where
  "chunk_body data i chunks =
     (case unpack_I (slice data i (i + 4)) of
        Inl e \<Rightarrow> Inl e
      | Inr l \<Rightarrow>
          (case decode_ascii (slice data (i + 4) (i + 8)) of
             Inl e \<Rightarrow> Inl e
           | Inr ct \<Rightarrow>
               (let chunks1 = (if chunks ct = None then chunks(ct \<mapsto> []) else chunks)
                in case chunks1 ct of
                     None \<Rightarrow> Inl KeyError
                   | Some ps \<Rightarrow>
                       Inr (i + (12 + l),
                            chunks1(ct \<mapsto> ps @ [slice data (i + 8) (i + 8 + l)])))))"

function chunk_loop :: "byte list \<Rightarrow> nat \<Rightarrow> chunks \<Rightarrow> error + chunks" where
  "chunk_loop data i chunks =
     (if i < length data then
        (case chunk_body data i chunks of
           Inl e \<Rightarrow> Inl e
         | Inr (i', chunks') \<Rightarrow> chunk_loop data i' chunks')
      else Inr chunks)"
  by pat_completeness auto
termination
proof (relation "measure (\<lambda>(data, i, chunks). length data - i)")
  show "wf (measure (\<lambda>(data, i, chunks). length data - i))"
    by simp
next
  fix data :: "byte list" and i :: nat and chunks :: chunks and x2 :: "nat \<times> chunks"
    and x y
  assume "i < length data" and "chunk_body data i chunks = Inr x2" and "(x, y) = x2"
  then have "chunk_body data i chunks = Inr (x, y)"
    by simp
  then have "i + 12 \<le> x"
    by (auto simp: chunk_body_def Let_def split: sum.splits option.splits if_splits)
  with \<open>i < length data\<close>
  show "((data, x, y), (data, i, chunks)) \<in> measure (\<lambda>(data, i, chunks). length data - i)"
    by simp
qed

declare chunk_loop.simps [simp del]

subsection \<open>Header and compressed stream (lines 47 and 48)\<close>

text \<open>\<open>W, H = struct.unpack('>II', chunks['IHDR'][0][:8])\<close>\<close>

definition read_header :: "chunks \<Rightarrow> error + (nat \<times> nat)" where
  "read_header chunks =
     (case chunks ''IHDR'' of
        None \<Rightarrow> Inl KeyError
      | Some ps \<Rightarrow>
          (case ps of
             [] \<Rightarrow> Inl IndexError
           | p # _ \<Rightarrow> unpack_II (slice p 0 8)))"

text \<open>
  \<open>raw = zlib.decompress(b''.join(chunks['IDAT']))\<close>. The decompressor is the zlib
  library's, outside the script: it is the parameter \<open>decompress\<close>.
\<close>

definition read_raw ::
  "(byte list \<Rightarrow> error + byte list) \<Rightarrow> chunks \<Rightarrow> error + byte list" where
  "read_raw decompress chunks =
     (case chunks ''IDAT'' of
        None \<Rightarrow> Inl KeyError
      | Some ps \<Rightarrow> decompress (concat ps))"

subsection \<open>The scanline loop (lines 49 to 64)\<close>

text \<open>A \<open>for x in xs\<close> loop over a state, stopping at the first exception.\<close>

fun for_loop :: "nat list \<Rightarrow> (nat \<Rightarrow> 's \<Rightarrow> error + 's) \<Rightarrow> 's \<Rightarrow> error + 's" where
  "for_loop [] body s = Inr s"
| "for_loop (x # xs) body s =
     (case body x s of Inl e \<Rightarrow> Inl e | Inr s' \<Rightarrow> for_loop xs body s')"

text \<open>\<open>row[x] = (row[x]+row[x-1])%256\<close>, for \<open>x \<ge> 1\<close>\<close>

definition sub_body :: "nat \<Rightarrow> int list \<Rightarrow> error + int list" where
  "sub_body x row =
     (if x < length row then Inr (row[x := (row ! x + row ! (x - 1)) mod 256])
      else Inl IndexError)"

text \<open>\<open>row[x] = (row[x]+prev[x])%256\<close>\<close>

definition up_body :: "int list \<Rightarrow> nat \<Rightarrow> int list \<Rightarrow> error + int list" where
  "up_body prev x row =
     (if x < length row then
        (if x < length prev then Inr (row[x := (row ! x + prev ! x) mod 256])
         else Inl IndexError)
      else Inl IndexError)"

text \<open>The \<open>if ft == 1 ... elif ft == 2 ...\<close> statement: there is no \<open>else\<close>.\<close>

definition defilter :: "byte \<Rightarrow> nat \<Rightarrow> int list \<Rightarrow> int list \<Rightarrow> error + int list" where
  "defilter ft rb prev row =
     (if ft = 1 then for_loop [1..<rb] sub_body row
      else if ft = 2 then for_loop [0..<rb] (up_body prev) row
      else Inr row)"

text \<open>\<open>for b in row: px.append((b>>4)&0xF); px.append(b&0xF)\<close>\<close>

definition unpack_px :: "int list \<Rightarrow> int list" where
  "unpack_px row = concat (map (\<lambda>b. [drop_bit 4 b AND 15, b AND 15]) row)"

text \<open>The body of \<open>for y in range(H)\<close>; \<open>y\<close> itself is not used.\<close>

definition row_body :: "nat \<Rightarrow> nat \<Rightarrow> byte list \<Rightarrow> nat \<Rightarrow> row_state \<Rightarrow> error + row_state" where
  "row_body W rb raw y st =
     (case st of (idx, prev, pixels) \<Rightarrow>
        if idx < length raw then
          (let ft = raw ! idx;
               idx1 = idx + 1;
               row = map uint (slice raw idx1 (idx1 + rb));
               idx2 = idx1 + rb
           in case defilter ft rb prev row of
                Inl e \<Rightarrow> Inl e
              | Inr row' \<Rightarrow> Inr (idx2, row', pixels @ [take W (unpack_px row')]))
        else Inl IndexError)"

definition decode_rows :: "nat \<Rightarrow> nat \<Rightarrow> byte list \<Rightarrow> error + int list list" where
  "decode_rows W H raw =
     (let rb = (W * 4 + 7) div 8
      in case for_loop [0..<H] (row_body W rb raw) (0, replicate rb 0, []) of
           Inl e \<Rightarrow> Inl e
         | Inr (idx, prev, pixels) \<Rightarrow> Inr pixels)"

subsection \<open>\<open>load_png\<close>\<close>

definition load_png ::
  "(byte list \<Rightarrow> error + byte list) \<Rightarrow> byte list \<Rightarrow> error + (int list list \<times> nat \<times> nat)" where
  "load_png decompress data =
     (case chunk_loop data 8 Map.empty of
        Inl e \<Rightarrow> Inl e
      | Inr chunks \<Rightarrow>
          (case read_header chunks of
             Inl e \<Rightarrow> Inl e
           | Inr (W, H) \<Rightarrow>
               (case read_raw decompress chunks of
                  Inl e \<Rightarrow> Inl e
                | Inr raw \<Rightarrow>
                    (case decode_rows W H raw of
                       Inl e \<Rightarrow> Inl e
                     | Inr pixels \<Rightarrow> Inr (pixels, W, H)))))"

subsection \<open>The chunk loop with a bound on its iterations\<close>

text \<open>
  The same loop, counting iterations: \<open>None\<close> when the \<open>while\<close> has not left
  after \<open>n\<close> evaluations of its condition.
\<close>

fun chunk_loop_fuel :: "nat \<Rightarrow> byte list \<Rightarrow> nat \<Rightarrow> chunks \<Rightarrow> (error + chunks) option" where
  "chunk_loop_fuel 0 data i chunks = None"
| "chunk_loop_fuel (Suc n) data i chunks =
     (if i < length data then
        (case chunk_body data i chunks of
           Inl e \<Rightarrow> Some (Inl e)
         | Inr (i', chunks') \<Rightarrow> chunk_loop_fuel n data i' chunks')
      else Some (Inr chunks))"

subsection \<open>A synthetic encoder, for the round trip\<close>

text \<open>
  The script has no encoder. \<open>pack_bits d\<close> packs a row of indices at bit depth \<open>d\<close>
  in the layout the decoder's format description gives: a byte holds \<open>8 div d\<close>
  consecutive indices, the first in the most significant bits (index \<open>k\<close> of a byte is
  shifted left by \<open>8 - k * d - d\<close>), and the unused bits of the last byte are zero. A
  row takes \<open>(length row * d + 7) div 8\<close> bytes. \<open>encode_depth d\<close> prefixes every packed
  row with the filter tag 0.
\<close>

definition pack_bits :: "nat \<Rightarrow> int list \<Rightarrow> byte list" where
  "pack_bits d row =
     (let n = 8 div d
      in map (\<lambda>j. word_of_int
                (sum_list (map (\<lambda>k. if j * n + k < length row
                                     then row ! (j * n + k) * 2 ^ (8 - k * d - d) else 0)
                               [0..<n])))
             [0..<(length row * d + 7) div 8])"

definition encode_depth :: "nat \<Rightarrow> int list list \<Rightarrow> byte list" where
  "encode_depth d grid = concat (map (\<lambda>row. 0 # pack_bits d row) grid)"

text \<open>
  The same packing for bit depth 4, by recursion on the row: two indices per byte, the
  first in the high half, an odd last index padded with zero bits.
\<close>

fun pack4 :: "int list \<Rightarrow> byte list" where
  "pack4 [] = []"
| "pack4 [a] = [word_of_int (a * 16)]"
| "pack4 (a # b # r) = word_of_int (a * 16 + b) # pack4 r"

definition encode_rows :: "int list list \<Rightarrow> byte list" where
  "encode_rows grid = concat (map (\<lambda>row. 0 # pack4 row) grid)"

subsection \<open>Sample files\<close>

text \<open>
  The values of \<open>zlib.decompress\<close> on the four compressed streams of the sample files
  below (each is the output of \<open>zlib.compress\<close> on the bytes at the right). The table
  stands for the library at these four streams only.
\<close>

definition zlib_sample :: "byte list \<Rightarrow> error + byte list" where
  "zlib_sample bs =
     (if bs = [120, 156, 99, 21, 2, 0, 0, 30, 0, 24] then Inr [5, 18]
      else if bs = [120, 156, 99, 248, 15, 0, 1, 1, 1, 0] then Inr [0, 255]
      else if bs = [120, 156, 99, 16, 2, 0, 0, 20, 0, 19] then Inr [0, 18]
      else if bs = [120, 156, 99, 252, 207, 196, 196, 40, 0, 0, 5, 39, 1, 22]
        then Inr [1, 255, 2, 2, 1, 16]
      else Inl ZlibError)"

text \<open>The 8-byte signature, and the \<open>IEND\<close> chunk with its checksum.\<close>

definition png_sig :: "byte list" where
  "png_sig = [137, 80, 78, 71, 13, 10, 26, 10]"

definition png_iend :: "byte list" where
  "png_iend = [0, 0, 0, 0, 73, 69, 78, 68, 174, 66, 96, 130]"

text \<open>The \<open>IDAT\<close> chunk holding the compressed stream of the raw bytes \<open>[0, 18]\<close>.\<close>

definition idat_0_18 :: "byte list" where
  "idat_0_18 = [0, 0, 0, 10, 73, 68, 65, 84,
                120, 156, 99, 16, 2, 0, 0, 20, 0, 19, 2, 29, 123, 219]"

text \<open>Width 2, height 1, bit depth 4, colour type 3; the raw stream is \<open>[5, 18]\<close>.\<close>

definition png_tag5 :: "byte list" where
  "png_tag5 = png_sig @
     [0, 0, 0, 13, 73, 72, 68, 82, 0, 0, 0, 2, 0, 0, 0, 1, 4, 3, 0, 0, 0, 6, 12, 98, 185] @
     [0, 0, 0, 10, 73, 68, 65, 84, 120, 156, 99, 21, 2, 0, 0, 30, 0, 24, 202, 96, 8, 34] @
     png_iend"

text \<open>Width 8, height 1, bit depth 1, colour type 3; the raw stream is \<open>[0, 255]\<close>.\<close>

definition png_depth1 :: "byte list" where
  "png_depth1 = png_sig @
     [0, 0, 0, 13, 73, 72, 68, 82, 0, 0, 0, 8, 0, 0, 0, 1, 1, 3, 0, 0, 0, 217, 206, 125, 0] @
     [0, 0, 0, 10, 73, 68, 65, 84, 120, 156, 99, 248, 15, 0, 1, 1, 1, 0, 177, 56, 246, 20] @
     png_iend"

text \<open>
  Width 2, height 1; the \<open>IDAT\<close> chunk declares 1000 bytes of payload and the file ends
  after 10 of them.
\<close>

definition png_truncated :: "byte list" where
  "png_truncated = png_sig @
     [0, 0, 0, 13, 73, 72, 68, 82, 0, 0, 0, 2, 0, 0, 0, 1, 4, 3, 0, 0, 0, 6, 12, 98, 185] @
     [0, 0, 3, 232, 73, 68, 65, 84, 120, 156, 99, 16, 2, 0, 0, 20, 0, 19]"

text \<open>Width 2, height 1, bit depth 4, colour type 3; the raw stream is \<open>[0, 18]\<close>.\<close>

definition png_plain :: "byte list" where
  "png_plain = png_sig @
     [0, 0, 0, 13, 73, 72, 68, 82, 0, 0, 0, 2, 0, 0, 0, 1, 4, 3, 0, 0, 0, 6, 12, 98, 185] @
     idat_0_18 @ png_iend"

text \<open>The same file with eight zero bytes in place of the signature.\<close>

definition png_badsig :: "byte list" where
  "png_badsig = [0, 0, 0, 0, 0, 0, 0, 0] @
     [0, 0, 0, 13, 73, 72, 68, 82, 0, 0, 0, 2, 0, 0, 0, 1, 4, 3, 0, 0, 0, 6, 12, 98, 185] @
     idat_0_18 @ png_iend"

text \<open>
  The same file with a header of bit depth 16, colour type 2 (truecolour) and interlace
  method 1.
\<close>

definition png_rgb16 :: "byte list" where
  "png_rgb16 = png_sig @
     [0, 0, 0, 13, 73, 72, 68, 82, 0, 0, 0, 2, 0, 0, 0, 1, 16, 2, 0, 0, 1, 92, 215, 4, 8] @
     idat_0_18 @ png_iend"

text \<open>
  Width 4, height 1, bit depth 4: a row needs two bytes after its tag, the raw stream
  \<open>[0, 18]\<close> has one.
\<close>

definition png_short :: "byte list" where
  "png_short = png_sig @
     [0, 0, 0, 13, 73, 72, 68, 82, 0, 0, 0, 4, 0, 0, 0, 1, 4, 3, 0, 0, 0, 11, 18, 18, 254] @
     idat_0_18 @ png_iend"

text \<open>
  Width 3, height 2, bit depth 4; the raw stream is \<open>[1, 255, 2, 2, 1, 16]\<close>: a Sub row
  and an Up row.
\<close>

definition png_3x2 :: "byte list" where
  "png_3x2 = png_sig @
     [0, 0, 0, 13, 73, 72, 68, 82, 0, 0, 0, 3, 0, 0, 0, 2, 4, 3, 0, 0, 0, 111, 90, 123, 41] @
     [0, 0, 0, 14, 73, 68, 65, 84,
      120, 156, 99, 252, 207, 196, 196, 40, 0, 0, 5, 39, 1, 22, 141, 238, 194, 206] @
     png_iend"

subsection \<open>Dictionaries that agree up to the tail of the first header payload\<close>

text \<open>
  A relation for the proofs about the header: two \<open>chunks\<close> dictionaries have the same
  entries for every type but \<open>IHDR\<close>, and their first \<open>IHDR\<close> payloads, when there is
  one, have the same first eight bytes.
\<close>

definition same_header_start :: "chunks \<Rightarrow> chunks \<Rightarrow> bool" where
  "same_header_start c1 c2 \<longleftrightarrow>
     (\<forall>k. k \<noteq> ''IHDR'' \<longrightarrow> c1 k = c2 k) \<and>
     ((c1 ''IHDR'' = None \<and> c2 ''IHDR'' = None) \<or>
      (\<exists>p1 ps1 p2 ps2. c1 ''IHDR'' = Some (p1 # ps1) \<and> c2 ''IHDR'' = Some (p2 # ps2) \<and>
         slice p1 0 8 = slice p2 0 8))"

subsection \<open>The value of a rebuilt byte\<close>

text \<open>
  For the proofs about the scanline loop: the value that the filter statement (lines 56
  to 59) leaves in column \<open>c\<close> of the row whose tag is at offset \<open>t\<close> of the raw stream,
  in terms of the stored byte, the rebuilt row \<open>out\<close> itself and the row \<open>prev\<close>.
\<close>

definition rebuilt_byte :: "byte list \<Rightarrow> nat \<Rightarrow> int list \<Rightarrow> int list \<Rightarrow> nat \<Rightarrow> int" where
  "rebuilt_byte raw t prev out c =
     (if raw ! t = 1
      then (uint (raw ! (t + 1 + c)) + (if c = 0 then 0 else out ! (c - 1))) mod 256
      else if raw ! t = 2
      then (uint (raw ! (t + 1 + c)) + prev ! c) mod 256
      else uint (raw ! (t + 1 + c)))"

section \<open>Properties of the loops\<close>

subsection \<open>The \<open>for\<close> loop\<close>

lemma for_loop_append:
  "for_loop (xs @ ys) body s =
     (case for_loop xs body s of Inl e \<Rightarrow> Inl e | Inr s' \<Rightarrow> for_loop ys body s')"
  by (induction xs arbitrary: s) (auto split: sum.splits)

lemma for_loop_inv:
  assumes "for_loop xs body s = Inr s'" and "P s"
    and "\<And>x t t'. P t \<Longrightarrow> body x t = Inr t' \<Longrightarrow> P t'"
  shows "P s'"
  using assms(1,2)
proof (induction xs arbitrary: s)
  case Nil
  then show ?case by simp
next
  case (Cons x xs)
  then show ?case
    by (auto split: sum.splits intro: assms(3))
qed

lemma sub_loop_prefix:
  "n \<le> length row \<Longrightarrow>
   \<exists>out. for_loop [1..<n] sub_body row = Inr out \<and> length out = length row \<and>
         out ! 0 = row ! 0 \<and>
         (\<forall>c. n \<le> c \<longrightarrow> out ! c = row ! c) \<and>
         (\<forall>c. 1 \<le> c \<and> c < n \<longrightarrow> out ! c = (row ! c + out ! (c - 1)) mod 256)"
proof (induction n)
  case 0
  then show ?case by simp
next
  case (Suc n)
  show ?case
  proof (cases "n = 0")
    case True
    then show ?thesis by simp
  next
    case False
    from Suc obtain out where out: "for_loop [1..<n] sub_body row = Inr out"
      "length out = length row" "out ! 0 = row ! 0"
      "\<forall>c. n \<le> c \<longrightarrow> out ! c = row ! c"
      "\<forall>c. 1 \<le> c \<and> c < n \<longrightarrow> out ! c = (row ! c + out ! (c - 1)) mod 256"
      by auto
    let ?out = "out[n := (out ! n + out ! (n - 1)) mod 256]"
    from False have split: "[1..<Suc n] = [1..<n] @ [n]" by simp
    have n: "n < length out" using Suc.prems out(2) by simp
    have run: "for_loop [1..<Suc n] sub_body row = Inr ?out"
      unfolding split for_loop_append using out(1) n by (simp add: sub_body_def)
    have rec: "\<forall>c. 1 \<le> c \<and> c < Suc n \<longrightarrow> ?out ! c = (row ! c + ?out ! (c - 1)) mod 256"
    proof (intro allI impI)
      fix c assume c: "1 \<le> c \<and> c < Suc n"
      show "?out ! c = (row ! c + ?out ! (c - 1)) mod 256"
      proof (cases "c = n")
        case True
        with n False out(4) show ?thesis by simp
      next
        case False
        with c have "c < n" by simp
        with c out(5) n show ?thesis by simp
      qed
    qed
    from run out(2,3,4) False rec show ?thesis by auto
  qed
qed

lemma up_loop_prefix:
  "n \<le> length row \<Longrightarrow> n \<le> length prev \<Longrightarrow>
   \<exists>out. for_loop [0..<n] (up_body prev) row = Inr out \<and> length out = length row \<and>
         (\<forall>c. n \<le> c \<longrightarrow> out ! c = row ! c) \<and>
         (\<forall>c. c < n \<longrightarrow> out ! c = (row ! c + prev ! c) mod 256)"
proof (induction n)
  case 0
  then show ?case by simp
next
  case (Suc n)
  then obtain out where out: "for_loop [0..<n] (up_body prev) row = Inr out"
    "length out = length row"
    "\<forall>c. n \<le> c \<longrightarrow> out ! c = row ! c"
    "\<forall>c. c < n \<longrightarrow> out ! c = (row ! c + prev ! c) mod 256"
    by auto
  let ?out = "out[n := (out ! n + prev ! n) mod 256]"
  have n: "n < length out" "n < length prev" using Suc.prems out(2) by simp_all
  have run: "for_loop [0..<Suc n] (up_body prev) row = Inr ?out"
    using out(1) n by (simp add: for_loop_append up_body_def)
  have "\<forall>c. c < Suc n \<longrightarrow> ?out ! c = (row ! c + prev ! c) mod 256"
    using out(3,4) n by (auto simp: nth_list_update less_Suc_eq)
  with run out(2,3) show ?case by auto
qed

lemma sub_body_length: "sub_body x row = Inr out \<Longrightarrow> length out = length row"
  by (auto simp: sub_body_def split: if_splits)

lemma up_body_length: "up_body prev x row = Inr out \<Longrightarrow> length out = length row"
  by (auto simp: up_body_def split: if_splits)

lemma defilter_length: 
  assumes "defilter ft rb prev row = Inr out" shows "length out = length row"
proof -
  consider "ft = 1" | "ft \<noteq> 1" "ft = 2" | "ft \<noteq> 1" "ft \<noteq> 2" by blast
  then show ?thesis
  proof cases
    case 1
    with assms have "for_loop [1..<rb] sub_body row = Inr out" by (simp add: defilter_def)
    then show ?thesis
      by (rule for_loop_inv [where P = "\<lambda>r. length r = length row"])
         (simp_all add: sub_body_length)
  next
    case 2
    with assms have "for_loop [0..<rb] (up_body prev) row = Inr out" by (simp add: defilter_def)
    then show ?thesis
      by (rule for_loop_inv [where P = "\<lambda>r. length r = length row"])
         (simp_all add: up_body_length)
  next
    case 3
    with assms show ?thesis by (simp add: defilter_def)
  qed
qed

lemma defilter_full:
  assumes "length row = rb" and "length prev = rb"
  shows "\<exists>out. defilter ft rb prev row = Inr out \<and> length out = rb"
proof -
  from sub_loop_prefix [of rb row] assms
  obtain o1 where "for_loop [1..<rb] sub_body row = Inr o1" "length o1 = rb" by auto
  moreover from up_loop_prefix [of rb row prev] assms
  obtain o2 where "for_loop [0..<rb] (up_body prev) row = Inr o2" "length o2 = rb" by auto
  ultimately show ?thesis using assms by (simp add: defilter_def)
qed

lemma slice_full_length: "b \<le> length xs \<Longrightarrow> length (slice xs a b) = b - a"
  by (simp add: slice_def)

section \<open>The row filters\<close>

text \<open>
  Claim C2. A row whose filter tag is 1 (Sub), with all its \<open>rb\<close> bytes in the raw
  stream, is reconstructed without an exception, and every column \<open>c\<close> of the result
  is the stored byte plus the reconstructed byte one column to the left (bpp is 1),
  modulo 256; the left neighbour of column 0 counts as 0. The sum wraps around: it is
  neither clamped at 255 nor an error.
\<close>

theorem sub_filter_row:
  assumes "idx + rb < length raw" and "raw ! idx = 1"
  shows "\<exists>out. row_body W rb raw y (idx, prev, pixels)
             = Inr (idx + 1 + rb, out, pixels @ [take W (unpack_px out)]) \<and>
           length out = rb \<and>
           (\<forall>c. c < rb \<longrightarrow>
              out ! c = (uint (raw ! (idx + 1 + c)) + (if c < 1 then 0 else out ! (c - 1))) mod 256)"
proof -
  let ?row = "map uint (slice raw (idx + 1) (idx + 1 + rb))"
  have len: "length ?row = rb" using assms(1) by (simp add: slice_full_length)
  have nth: "\<And>c. c < rb \<Longrightarrow> ?row ! c = uint (raw ! (idx + 1 + c))"
    using assms(1) by (simp add: slice_def)
  from sub_loop_prefix [of rb ?row] len
  obtain out where out: "for_loop [1..<rb] sub_body ?row = Inr out" "length out = rb"
    "out ! 0 = ?row ! 0"
    "\<forall>c. 1 \<le> c \<and> c < rb \<longrightarrow> out ! c = (?row ! c + out ! (c - 1)) mod 256"
    by auto
  have run: "row_body W rb raw y (idx, prev, pixels)
             = Inr (idx + 1 + rb, out, pixels @ [take W (unpack_px out)])"
    using assms out(1) by (simp add: row_body_def defilter_def Let_def)
  have "\<forall>c. c < rb \<longrightarrow>
          out ! c = (uint (raw ! (idx + 1 + c)) + (if c < 1 then 0 else out ! (c - 1))) mod 256"
  proof (intro allI impI)
    fix c assume c: "c < rb"
    show "out ! c = (uint (raw ! (idx + 1 + c)) + (if c < 1 then 0 else out ! (c - 1))) mod 256"
    proof (cases "c = 0")
      case True
      have "uint (raw ! (idx + 1)) mod 256 = uint (raw ! (idx + 1))"
        using uint_bounded [of "raw ! (idx + 1)"] by simp
      with True c out(3) nth [of 0] show ?thesis by simp
    next
      case False
      with c out(4) nth [of c] show ?thesis by simp
    qed
  qed
  with run out(2) show ?thesis by blast
qed

theorem sub_filter_row_witness:
  "\<exists>out. row_body 4 2 [1, 255, 2] 0 (0, [0, 0], []) = Inr (3, out, [take 4 (unpack_px out)]) \<and>
         length out = 2 \<and> out ! 0 = 255 \<and> out ! 1 = 1"
proof -
  have h: "0 + 2 < length [1, 255, 2 :: byte]" "[1, 255, 2 :: byte] ! 0 = 1"
    by simp_all
  from sub_filter_row [OF h, of 4 0 "[0, 0]" "[]"]
  obtain out where out:
    "row_body 4 2 [1, 255, 2] 0 (0, [0, 0], []) = Inr (3, out, [take 4 (unpack_px out)])"
    "length out = 2"
    "\<forall>c<2. out ! c =
       (uint ([1, 255, 2 :: byte] ! (0 + 1 + c)) + (if c < 1 then 0 else out ! (c - 1))) mod 256"
    by auto
  from out(3) [rule_format, of 0] have "out ! 0 = 255"
    by simp
  moreover from out(3) [rule_format, of 1] have "out ! 1 = (2 + out ! 0) mod 256"
    by simp
  ultimately have "out ! 1 = 1"
    by simp
  with out(1,2) \<open>out ! 0 = 255\<close> show ?thesis
    by blast
qed

subsection \<open>One iteration of the scanline loop\<close>

lemma row_body_full:
  assumes "idx + rb < length raw" and "length prev = rb"
  shows "\<exists>out. row_body W rb raw y (idx, prev, pixels)
             = Inr (idx + 1 + rb, out, pixels @ [take W (unpack_px out)]) \<and> length out = rb"
proof -
  let ?row = "map uint (slice raw (idx + 1) (idx + 1 + rb))"
  have "length ?row = rb" using assms(1) by (simp add: slice_full_length)
  from defilter_full [OF this assms(2), of "raw ! idx"]
  obtain out where "defilter (raw ! idx) rb prev ?row = Inr out" "length out = rb" by auto
  with assms(1) show ?thesis by (simp add: row_body_def Let_def)
qed

lemma row_body_result:
  assumes "row_body W rb raw y (idx, prev, pixels) = Inr (idx', prev', pixels')"
  shows "idx < length raw \<and> idx' = idx + 1 + rb \<and>
         pixels' = pixels @ [take W (unpack_px prev')] \<and>
         length prev' = min rb (length raw - (idx + 1))"
proof -
  from assms have lt: "idx < length raw"
    by (auto simp: row_body_def split: if_splits)
  let ?row = "map uint (slice raw (idx + 1) (idx + 1 + rb))"
  from assms lt obtain out where out: "defilter (raw ! idx) rb prev ?row = Inr out"
    and res: "(idx', prev', pixels') = (idx + 1 + rb, out, pixels @ [take W (unpack_px out)])"
    by (auto simp: row_body_def Let_def split: sum.splits)
  from defilter_length [OF out] have "length out = min rb (length raw - (idx + 1))"
    by (simp add: slice_def min.commute)
  with lt res show ?thesis by simp
qed

lemma rows_loop_shape:
  "for_loop ys (row_body W rb raw) (idx, prev, pixels) = Inr (idx', prev', pixels') \<Longrightarrow>
   idx' = idx + length ys * (1 + rb) \<and> length pixels' = length pixels + length ys"
proof (induction ys arbitrary: idx prev pixels)
  case Nil
  then show ?case by simp
next
  case (Cons y ys)
  from Cons.prems obtain st where st: "row_body W rb raw y (idx, prev, pixels) = Inr st"
    and rest: "for_loop ys (row_body W rb raw) st = Inr (idx', prev', pixels')"
    by (auto split: sum.splits)
  obtain i1 p1 x1 where st_eq: "st = (i1, p1, x1)" by (cases st)
  from row_body_result [OF st [unfolded st_eq]]
  have "i1 = idx + 1 + rb" "length x1 = length pixels + 1" by simp_all
  with Cons.IH [OF rest [unfolded st_eq]] show ?case by simp
qed



subsection \<open>Unpacking\<close>

lemma unpack_px_length: "length (unpack_px row) = 2 * length row"
  by (induction row) (simp_all add: unpack_px_def)

lemma nibble_range: "0 \<le> (x :: int) AND 15 \<and> x AND 15 < 16"
proof -
  have "x AND 15 \<le> 15" by (rule AND_upper2) simp
  moreover have "0 \<le> x AND 15" by simp
  ultimately show ?thesis by simp
qed

lemma unpack_px_range: "v \<in> set (unpack_px row) \<Longrightarrow> 0 \<le> v \<and> v < 16"
  using nibble_range by (auto simp: unpack_px_def)

lemma stride_covers_width: "(W :: nat) \<le> 2 * ((W * 4 + 7) div 8)"
  by arith

subsection \<open>The scanline loop on a stream that is long enough\<close>

lemma rows_loop_full:
  assumes "W \<le> 2 * rb"
  shows "idx + length ys * (1 + rb) \<le> length raw \<Longrightarrow> length prev = rb \<Longrightarrow>
         \<exists>idx' prev' new. for_loop ys (row_body W rb raw) (idx, prev, pixels)
                            = Inr (idx', prev', pixels @ new) \<and>
           length new = length ys \<and>
           (\<forall>row \<in> set new. length row = W \<and> (\<forall>v \<in> set row. 0 \<le> v \<and> v < 16))"
proof (induction ys arbitrary: idx prev pixels)
  case Nil
  then show ?case by simp
next
  case (Cons y ys)
  from Cons.prems have here: "idx + rb < length raw" by simp
  from row_body_full [OF here Cons.prems(2), of W y pixels]
  obtain out where out: "row_body W rb raw y (idx, prev, pixels)
             = Inr (idx + 1 + rb, out, pixels @ [take W (unpack_px out)])" "length out = rb"
    by auto
  let ?px = "take W (unpack_px out)"
  have px_len: "length ?px = W"
    using assms out(2) by (simp add: unpack_px_length)
  have px_range: "\<forall>v \<in> set ?px. 0 \<le> v \<and> v < 16"
    using unpack_px_range by (blast dest: in_set_takeD)
  from Cons.prems have "(idx + 1 + rb) + length ys * (1 + rb) \<le> length raw" by simp
  from Cons.IH [OF this out(2), of "pixels @ [?px]"]
  obtain idx' prev' new where rest:
    "for_loop ys (row_body W rb raw) (idx + 1 + rb, out, pixels @ [?px])
       = Inr (idx', prev', (pixels @ [?px]) @ new)"
    "length new = length ys"
    "\<forall>row \<in> set new. length row = W \<and> (\<forall>v \<in> set row. 0 \<le> v \<and> v < 16)"
    by blast
  have "for_loop (y # ys) (row_body W rb raw) (idx, prev, pixels)
          = Inr (idx', prev', pixels @ (?px # new))"
    using out(1) rest(1) by simp
  moreover have "length (?px # new) = length (y # ys)"
    using rest(2) by simp
  moreover have "\<forall>row \<in> set (?px # new). length row = W \<and> (\<forall>v \<in> set row. 0 \<le> v \<and> v < 16)"
    using px_len px_range rest(3) by simp
  ultimately show ?case by blast
qed

lemma decode_rows_full:
  assumes "H * (1 + (W * 4 + 7) div 8) \<le> length raw"
  shows "\<exists>pixels. decode_rows W H raw = Inr pixels \<and> length pixels = H \<and>
           (\<forall>row \<in> set pixels. length row = W \<and> (\<forall>v \<in> set row. 0 \<le> v \<and> v < 16))"
proof -
  let ?rb = "(W * 4 + 7) div 8"
  have "0 + length [0..<H] * (1 + ?rb) \<le> length raw" using assms by simp
  from rows_loop_full [OF stride_covers_width this, of "replicate ?rb 0" "[]"]
  obtain idx' prev' new where
    "for_loop [0..<H] (row_body W ?rb raw) (0, replicate ?rb 0, []) = Inr (idx', prev', new)"
    "length new = H"
    "\<forall>row \<in> set new. length row = W \<and> (\<forall>v \<in> set row. 0 \<le> v \<and> v < 16)"
    by auto
  then show ?thesis by (simp add: decode_rows_def Let_def)
qed

text \<open>
  Claim C4, as the code has it. The decoder never reads the bit depth of the header: it
  always takes \<open>rb = (W * 4 + 7) div 8\<close> bytes per row and unpacks two 4-bit indices
  per byte. When the chunks parse, the header gives \<open>W\<close> and \<open>H\<close>, and the decompressed
  stream has \<open>H * (1 + rb)\<close> bytes, \<open>load_png\<close> returns a grid of exactly \<open>H\<close> rows of
  exactly \<open>W\<close> entries, each at least 0 and below \<open>2 ^ 4\<close>.
\<close>

theorem load_png_grid_shape:
  assumes "chunk_loop data 8 Map.empty = Inr chunks"
    and "read_header chunks = Inr (W, H)"
    and "read_raw decompress chunks = Inr raw"
    and "length raw = H * (1 + (W * 4 + 7) div 8)"
  shows "\<exists>pixels. load_png decompress data = Inr (pixels, W, H) \<and> length pixels = H \<and>
           (\<forall>row \<in> set pixels. length row = W \<and> (\<forall>v \<in> set row. 0 \<le> v \<and> v < 2 ^ 4))"
proof -
  from assms(4) have "H * (1 + (W * 4 + 7) div 8) \<le> length raw" by simp
  from decode_rows_full [OF this]
  obtain pixels where "decode_rows W H raw = Inr pixels" "length pixels = H"
    "\<forall>row \<in> set pixels. length row = W \<and> (\<forall>v \<in> set row. 0 \<le> v \<and> v < 16)"
    by blast
  with assms(1-3) show ?thesis by (simp add: load_png_def)
qed

subsection \<open>The chunks of the sample files\<close>

lemma decode_ascii_IHDR: "decode_ascii [73, 72, 68, 82] = Inr ''IHDR''"
  by code_simp

lemma decode_ascii_IDAT: "decode_ascii [73, 68, 65, 84] = Inr ''IDAT''"
  by code_simp

lemma decode_ascii_IEND: "decode_ascii [73, 69, 78, 68] = Inr ''IEND''"
  by code_simp

lemmas chunk_eval =
  chunk_loop.simps chunk_body_def slice_def unpack_I_def be_nat_def
  decode_ascii_IHDR decode_ascii_IDAT decode_ascii_IEND
  png_sig_def png_iend_def idat_0_18_def

lemma png_3x2_chunks:
  "chunk_loop png_3x2 8 Map.empty = Inr
     [''IHDR'' \<mapsto> [[0, 0, 0, 3, 0, 0, 0, 2, 4, 3, 0, 0, 0]],
      ''IDAT'' \<mapsto> [[120, 156, 99, 252, 207, 196, 196, 40, 0, 0, 5, 39, 1, 22]],
      ''IEND'' \<mapsto> [[]]]"
  by (simp add: png_3x2_def chunk_eval)

theorem load_png_grid_shape_witness:
  "\<exists>pixels. load_png zlib_sample png_3x2 = Inr (pixels, 3, 2) \<and> length pixels = 2 \<and>
     length (pixels ! 0) = 3 \<and> length (pixels ! 1) = 3 \<and> pixels ! 0 ! 0 < 16"
proof -
  let ?chunks = "[''IHDR'' \<mapsto> [[0, 0, 0, 3, 0, 0, 0, 2, 4, 3, 0, 0, 0 :: byte]],
      ''IDAT'' \<mapsto> [[120, 156, 99, 252, 207, 196, 196, 40, 0, 0, 5, 39, 1, 22]],
      ''IEND'' \<mapsto> [[]]]"
  let ?raw = "[1, 255, 2, 2, 1, 16 :: byte]"
  have h2: "read_header ?chunks = Inr (3, 2)"
    by (simp add: read_header_def unpack_II_def slice_def be_nat_def)
  have h3: "read_raw zlib_sample ?chunks = Inr ?raw"
    by (simp add: read_raw_def zlib_sample_def)
  have h4: "length ?raw = 2 * (1 + (3 * 4 + 7) div 8)"
    by simp
  from load_png_grid_shape [OF png_3x2_chunks h2 h3 h4]
  obtain pixels where px: "load_png zlib_sample png_3x2 = Inr (pixels, 3, 2)"
    "length pixels = 2"
    "\<forall>row \<in> set pixels. length row = 3 \<and> (\<forall>v \<in> set row. 0 \<le> v \<and> v < 2 ^ 4)"
    by blast
  from px(2) have in0: "pixels ! 0 \<in> set pixels" and in1: "pixels ! 1 \<in> set pixels"
    by simp_all
  from px(3) in0 have l0: "length (pixels ! 0) = 3" by blast
  then have "pixels ! 0 ! 0 \<in> set (pixels ! 0)" by simp
  with px(3) in0 have "pixels ! 0 ! 0 < 16" by fastforce
  moreover from px(3) in1 have "length (pixels ! 1) = 3" by blast
  ultimately show ?thesis using px(1,2) l0 by blast
qed

text \<open>
  Claim C4 as stated fails for a header of bit depth 1: the file \<open>png_depth1\<close> has
  width 8, height 1, and a raw stream of \<open>1 * (1 + 1)\<close> bytes, well-formed for one bit
  per pixel. The decoder returns one row of two entries, both 15.
\<close>

theorem bit_depth_counterexample:
  "load_png zlib_sample png_depth1 = Inr ([[15, 15]], 8, 1) \<and>
   png_depth1 ! 24 = 1 \<and>
   zlib_sample (slice png_depth1 41 51) = Inr [0, 255] \<and>
   length [0, 255 :: byte] = 1 * (1 + (8 * 1 + 7) div 8) \<and>
   length ([[15, 15]] ! 0 :: int list) \<noteq> 8 \<and>
   \<not> ([[15, 15]] ! 0 ! 0 :: int) < 2 ^ 1"
  by code_simp

subsection \<open>Rows with a filter tag other than 1 and 2\<close>

lemma for_loop_cong_inv:
  assumes "P s"
    and "\<And>x t. P t \<Longrightarrow> f x t = g x t"
    and "\<And>x t t'. P t \<Longrightarrow> f x t = Inr t' \<Longrightarrow> P t'"
  shows "for_loop xs f s = for_loop xs g s"
  using assms(1)
proof (induction xs arbitrary: s)
  case Nil
  then show ?case by simp
next
  case (Cons x xs)
  from assms(2) [OF Cons.prems] have eq: "f x s = g x s" .
  show ?case
  proof (cases "f x s")
    case (Inl e)
    with eq have "g x s = Inl e" by simp
    with Inl show ?thesis by simp
  next
    case (Inr s')
    from assms(3) [OF Cons.prems Inr] have "P s'" .
    from eq Inr have "g x s = Inr s'" by simp
    with Cons.IH [OF \<open>P s'\<close>] Inr show ?thesis by simp
  qed
qed

lemma slice_update_outside:
  assumes "t < a \<or> b \<le> t"
  shows "slice (xs[t := v]) a b = slice xs a b"
proof (cases "t < a")
  case True
  then show ?thesis by (simp add: slice_def)
next
  case False
  with assms have "a \<le> t" "b - a \<le> t - a" by simp_all
  then show ?thesis by (simp add: slice_def drop_update_swap)
qed

lemma tag_position_outside_row:
  assumes "(1 + rb) dvd (idx :: nat)" and "t = y * (1 + rb)"
  shows "t \<le> idx \<or> idx + 1 + rb \<le> t"
proof -
  from assms(1) obtain m where "idx = (1 + rb) * m" ..
  then have m: "idx = m * (1 + rb)" by (simp add: mult.commute)
  show ?thesis
  proof (cases "y \<le> m")
    case True
    then have "y * (1 + rb) \<le> m * (1 + rb)" by (rule mult_le_mono1)
    with m assms(2) show ?thesis by simp
  next
    case False
    then have "Suc m \<le> y" by simp
    then have "Suc m * (1 + rb) \<le> y * (1 + rb)" by (rule mult_le_mono1)
    with m assms(2) show ?thesis by simp
  qed
qed

lemma row_body_tag_as_none:
  assumes "(1 + rb) dvd idx" and "t = y * (1 + rb)" and "t < length raw"
    and "raw ! t \<noteq> 1" and "raw ! t \<noteq> 2"
  shows "row_body W rb raw x (idx, prev, pixels) = row_body W rb (raw[t := 0]) x (idx, prev, pixels)"
proof -
  from tag_position_outside_row [OF assms(1,2)]
  have "t < idx + 1 \<or> idx + 1 + rb \<le> t" by auto
  then have row: "slice (raw[t := 0]) (idx + 1) (idx + 1 + rb) = slice raw (idx + 1) (idx + 1 + rb)"
    by (rule slice_update_outside)
  show ?thesis
  proof (cases "idx = t")
    case True
    with assms(3,4,5) row show ?thesis
      by (simp add: row_body_def defilter_def Let_def)
  next
    case False
    with row show ?thesis
      by (simp add: row_body_def Let_def)
  qed
qed

text \<open>
  Claim C1, as the code has it. The filter statement has two branches, for the tags 1
  and 2, and no \<open>else\<close>: a row whose tag byte is any other value (0, 3, 4, or a value
  outside 0 to 4 such as 5) raises no exception for the tag and is decoded exactly as
  if its tag were 0. Here \<open>t\<close> is the offset of the tag of row \<open>y\<close> in the raw stream.
\<close>

theorem other_tag_decodes_as_none:
  assumes "t = y * (1 + (W * 4 + 7) div 8)" and "t < length raw"
    and "raw ! t \<noteq> 1" and "raw ! t \<noteq> 2"
  shows "decode_rows W H raw = decode_rows W H (raw[t := 0])"
proof -
  let ?rb = "(W * 4 + 7) div 8"
  let ?P = "\<lambda>st :: row_state. case st of (idx, prev, pixels) \<Rightarrow> (1 + ?rb) dvd idx"
  have "for_loop [0..<H] (row_body W ?rb raw) (0, replicate ?rb 0, [])
        = for_loop [0..<H] (row_body W ?rb (raw[t := 0])) (0, replicate ?rb 0, [])"
  proof (rule for_loop_cong_inv [where P = ?P])
    show "?P (0, replicate ?rb 0, [])" by simp
  next
    fix x and st :: row_state
    assume "?P st"
    then show "row_body W ?rb raw x st = row_body W ?rb (raw[t := 0]) x st"
      using row_body_tag_as_none [OF _ assms] by (cases st) auto
  next
    fix x and st st' :: row_state
    assume P: "?P st" and step: "row_body W ?rb raw x st = Inr st'"
    obtain i p xs where st_eq: "st = (i, p, xs)" by (cases st)
    obtain i' p' xs' where st'_eq: "st' = (i', p', xs')" by (cases st')
    from row_body_result [OF step [unfolded st_eq st'_eq]] have "i' = i + (1 + ?rb)" by simp
    moreover from P have "(1 + ?rb) dvd i" unfolding st_eq by simp
    ultimately have "(1 + ?rb) dvd i'" by (simp only: dvd_add dvd_refl)
    then show "?P st'" unfolding st'_eq by simp
  qed
  then show ?thesis by (simp add: decode_rows_def Let_def)
qed

theorem other_tag_decodes_as_none_witness:
  "decode_rows 2 2 [0, 18, 5, 52] = Inr [[1, 2], [3, 4]]"
proof -
  have h: "(2 :: nat) = 1 * (1 + (2 * 4 + 7) div 8)" "2 < length [0, 18, 5, 52 :: byte]"
    "[0, 18, 5, 52 :: byte] ! 2 \<noteq> 1" "[0, 18, 5, 52 :: byte] ! 2 \<noteq> 2"
    by simp_all
  have "decode_rows 2 2 ([0, 18, 5, 52][2 := 0]) = Inr [[1, 2], [3, 4]]"
    by code_simp
  with other_tag_decodes_as_none [OF h, of 2] show ?thesis by simp
qed

text \<open>
  Claim C1 as stated fails: the one-row stream \<open>[5, 18]\<close>, and the file \<open>png_tag5\<close> that
  holds it, decode to a grid, the row taken as it is.
\<close>

theorem tag5_counterexample:
  "decode_rows 2 1 [5, 18] = Inr [[1, 2]] \<and>
   zlib_sample (slice png_tag5 41 51) = Inr [5, 18] \<and>
   load_png zlib_sample png_tag5 = Inr ([[1, 2]], 2, 1)"
  by code_simp

section \<open>The round trip\<close>

lemma and_15_mod: "(x :: int) AND 15 = x mod 16"
proof -
  have "mask 4 = (15 :: int)" by (simp add: mask_eq_exp_minus_1)
  with take_bit_eq_mask [of 4 x] show ?thesis by (simp add: take_bit_eq_mod)
qed

lemma nibble_pair:
  assumes "0 \<le> a" "a < 16" "0 \<le> b" "b < 16"
  shows "drop_bit 4 (uint (word_of_int (a * 16 + b) :: byte)) AND 15 = a"
    and "uint (word_of_int (a * 16 + b) :: byte) AND 15 = b"
proof -
  from assms have "0 \<le> a * 16 + b" "a * 16 + b < 256" by simp_all
  moreover have "uint (word_of_int k :: byte) = k mod 256" for k
    by (simp add: uint_word_of_int take_bit_eq_mod)
  ultimately have u: "uint (word_of_int (a * 16 + b) :: byte) = a * 16 + b"
    by (simp only: mod_pos_pos_trivial)
  from assms have "(a * 16 + b) div 16 = a" "(a * 16 + b) mod 16 = b" by simp_all
  with assms u show "drop_bit 4 (uint (word_of_int (a * 16 + b) :: byte)) AND 15 = a"
    and "uint (word_of_int (a * 16 + b) :: byte) AND 15 = b"
    by (simp_all only: u and_15_mod drop_bit_eq_div power_numeral, simp_all)
qed

lemma pack4_length: "length (pack4 row) = (length row + 1) div 2"
  by (induction row rule: pack4.induct) simp_all

lemma unpack_pack4:
  "\<forall>v \<in> set row. 0 \<le> v \<and> v < 16 \<Longrightarrow>
   take (length row) (unpack_px (map uint (pack4 row))) = row"
proof (induction row rule: pack4.induct)
  case 1
  then show ?case by (simp add: unpack_px_def)
next
  case (2 a)
  then have "0 \<le> a" "a < 16" by simp_all
  from nibble_pair(1) [OF this, of 0] show ?case by (simp add: unpack_px_def)
next
  case (3 a b r)
  then have ab: "0 \<le> a" "a < 16" "0 \<le> b" "b < 16" by simp_all
  from 3 have "take (length r) (unpack_px (map uint (pack4 r))) = r" by simp
  with nibble_pair [OF ab] show ?case by (simp add: unpack_px_def)
qed

lemma encode_rows_Cons: "encode_rows (g # gs) = 0 # pack4 g @ encode_rows gs"
  by (simp add: encode_rows_def)

lemma rows_loop_roundtrip:
  assumes rb: "rb = (W * 4 + 7) div 8"
  shows "\<forall>row \<in> set grid. length row = W \<and> (\<forall>v \<in> set row. 0 \<le> v \<and> v < 16) \<Longrightarrow>
         length ys = length grid \<Longrightarrow>
         \<exists>idx' prev'. for_loop ys (row_body W rb (pre @ encode_rows grid)) (length pre, prev, pixels)
                        = Inr (idx', prev', pixels @ grid)"
proof (induction grid arbitrary: pre prev pixels ys)
  case Nil
  then show ?case by simp
next
  case (Cons g gs)
  from Cons.prems(2) obtain y ys' where ys: "ys = y # ys'" and len: "length ys' = length gs"
    by (cases ys) auto
  from Cons.prems(1) have g: "length g = W" "\<forall>v \<in> set g. 0 \<le> v \<and> v < 16" by simp_all
  let ?raw = "pre @ encode_rows (g # gs)"
  have plen: "length (pack4 g) = rb"
    using g(1) rb by (simp add: pack4_length)
  have row: "slice ?raw (length pre + 1) (length pre + 1 + rb) = pack4 g"
    using plen by (simp add: slice_def encode_rows_Cons)
  have tag: "length pre < length ?raw" "?raw ! length pre = 0"
    by (simp_all add: encode_rows_Cons)
  have px: "take W (unpack_px (map uint (pack4 g))) = g"
    using unpack_pack4 [OF g(2)] g(1) by simp
  have step: "row_body W rb ?raw y (length pre, prev, pixels)
              = Inr (length pre + 1 + rb, map uint (pack4 g), pixels @ [g])"
    using tag row px by (simp add: row_body_def defilter_def Let_def)
  let ?pre = "pre @ 0 # pack4 g"
  have raw: "?raw = ?pre @ encode_rows gs"
    by (simp add: encode_rows_Cons)
  have plen': "length ?pre = length pre + 1 + rb"
    using plen by simp
  from Cons.prems(1) have "\<forall>row \<in> set gs. length row = W \<and> (\<forall>v \<in> set row. 0 \<le> v \<and> v < 16)"
    by simp
  from Cons.IH [OF this len, of ?pre "map uint (pack4 g)" "pixels @ [g]"]
  obtain idx' prev' where
    "for_loop ys' (row_body W rb (?pre @ encode_rows gs))
       (length ?pre, map uint (pack4 g), pixels @ [g]) = Inr (idx', prev', (pixels @ [g]) @ gs)"
    by blast
  with step show ?case unfolding ys raw [symmetric] plen' by simp
qed

lemma roundtrip_pack4:
  assumes "\<forall>row \<in> set grid. length row = W \<and> (\<forall>v \<in> set row. 0 \<le> v \<and> v < 16)"
  shows "decode_rows W (length grid) (encode_rows grid) = Inr grid"
proof -
  let ?rb = "(W * 4 + 7) div 8"
  have "length [0..<length grid] = length grid" by simp
  from rows_loop_roundtrip [OF refl assms this, of "[]" "replicate ?rb 0" "[]"]
  obtain idx' prev' where
    "for_loop [0..<length grid] (row_body W ?rb (encode_rows grid)) (0, replicate ?rb 0, [])
       = Inr (idx', prev', grid)"
    by auto
  then show ?thesis by (simp add: decode_rows_def Let_def)
qed


section \<open>What a successful decode returns\<close>

lemma decode_rows_shape:
  assumes "decode_rows W H raw = Inr pixels"
  shows "length pixels = H \<and>
         (\<forall>y. y < H \<longrightarrow> length (pixels ! y) \<le> W) \<and>
         (\<forall>y. Suc y < H \<longrightarrow> length (pixels ! y) = W)"
proof -
  let ?rb = "(W * 4 + 7) div 8"
  let ?P = "\<lambda>st :: row_state. case st of (idx, prev, px) \<Rightarrow>
              (\<forall>row \<in> set px. length row \<le> W) \<and>
              (idx \<le> length raw \<longrightarrow> (\<forall>row \<in> set px. length row = W)) \<and>
              (\<forall>y. Suc y < length px \<longrightarrow> length (px ! y) = W)"
  from assms obtain idx prev where
    run: "for_loop [0..<H] (row_body W ?rb raw) (0, replicate ?rb 0, []) = Inr (idx, prev, pixels)"
    by (auto simp: decode_rows_def Let_def split: sum.splits)
  from rows_loop_shape [OF run] have len: "length pixels = H" by simp
  have "?P (idx, prev, pixels)"
  proof (rule for_loop_inv [OF run, where P = ?P])
    show "?P (0, replicate ?rb 0, [])" by simp
  next
    fix x and t t' :: row_state
    assume P: "?P t" and step: "row_body W ?rb raw x t = Inr t'"
    obtain i p xs where t_eq: "t = (i, p, xs)" by (cases t)
    obtain i' p' xs' where t'_eq: "t' = (i', p', xs')" by (cases t')
    from row_body_result [OF step [unfolded t_eq t'_eq]]
    have res: "i < length raw" "i' = i + 1 + ?rb" "xs' = xs @ [take W (unpack_px p')]"
      "length p' = min ?rb (length raw - (i + 1))"
      by simp_all
    from P res(1) have full: "\<forall>row \<in> set xs. length row = W"
      unfolding t_eq by simp
    have a: "\<forall>row \<in> set xs'. length row \<le> W"
      using full res(3) by simp
    have b: "i' \<le> length raw \<longrightarrow> (\<forall>row \<in> set xs'. length row = W)"
    proof
      assume "i' \<le> length raw"
      with res(2,4) have "length p' = ?rb" by simp
      then have "length (take W (unpack_px p')) = W"
        using stride_covers_width [of W] by (simp add: unpack_px_length)
      with full res(3) show "\<forall>row \<in> set xs'. length row = W" by simp
    qed
    have c: "\<forall>y. Suc y < length xs' \<longrightarrow> length (xs' ! y) = W"
      using full res(3) by (simp add: nth_append)
    from a b c show "?P t'" unfolding t'_eq by simp
  qed
  then have "\<forall>row \<in> set pixels. length row \<le> W"
    and "\<forall>y. Suc y < length pixels \<longrightarrow> length (pixels ! y) = W"
    by simp_all
  with len show ?thesis by simp
qed

text \<open>
  Claim C9, as the code has it. An exception leaves no grid: \<open>load_png\<close> is either an
  error or a grid. A returned grid has exactly \<open>H\<close> rows; every row but the last has
  exactly \<open>W\<close> entries and the last has at most \<open>W\<close>. The length of the raw stream is
  never compared with \<open>H * (1 + rb)\<close>, so a last row cut short by the end of the stream
  is returned as it is.
\<close>

theorem load_png_rows_but_last_complete:
  assumes "load_png decompress data = Inr (pixels, W, H)"
  shows "length pixels = H \<and>
         (\<forall>y. y < H \<longrightarrow> length (pixels ! y) \<le> W) \<and>
         (\<forall>y. Suc y < H \<longrightarrow> length (pixels ! y) = W)"
proof -
  from assms obtain raw where "decode_rows W H raw = Inr pixels"
    by (auto simp: load_png_def split: sum.splits)
  then show ?thesis by (rule decode_rows_shape)
qed

theorem load_png_rows_but_last_complete_witness:
  "load_png zlib_sample png_3x2 = Inr ([[15, 15, 0], [0, 0, 1]], 3, 2) \<and>
   length [[15, 15, 0], [0, 0, 1 :: int]] = 2 \<and>
   length ([[15, 15, 0], [0, 0, 1 :: int]] ! 1) \<le> 3 \<and>
   length ([[15, 15, 0], [0, 0, 1 :: int]] ! 0) = 3"
proof -
  have h: "load_png zlib_sample png_3x2 = Inr ([[15, 15, 0], [0, 0, 1]], 3, 2)"
    by code_simp
  from load_png_rows_but_last_complete [OF h]
  have "length [[15, 15, 0], [0, 0, 1 :: int]] = 2"
    and "length ([[15, 15, 0], [0, 0, 1 :: int]] ! 1) \<le> 3"
    and "length ([[15, 15, 0], [0, 0, 1 :: int]] ! 0) = 3"
    by simp_all
  with h show ?thesis by blast
qed

text \<open>
  Claim C9 as stated fails: for width 4 and height 1 a row needs its tag and two bytes;
  the raw stream \<open>[0, 18]\<close> holds one byte of the row, and the decoder returns the row
  of the two indices it could unpack.
\<close>

theorem short_stream_counterexample:
  "load_png zlib_sample png_short = Inr ([[1, 2]], 4, 1) \<and>
   zlib_sample (slice png_short 41 51) = Inr [0, 18] \<and>
   decode_rows 4 1 [0, 18] = Inr [[1, 2]] \<and>
   length [0, 18 :: byte] < 1 * (1 + (4 * 4 + 7) div 8) \<and>
   length ([[1, 2]] ! 0 :: int list) \<noteq> 4"
  by code_simp

section \<open>The chunk loop\<close>

lemma unpack_I_value: "unpack_I bs = Inr l \<Longrightarrow> l = be_nat bs"
  by (simp add: unpack_I_def split: if_splits)

lemma chunk_body_offset:
  "chunk_body data i chunks = Inr (i', chunks') \<Longrightarrow>
   \<exists>l. unpack_I (slice data i (i + 4)) = Inr l \<and> i' = i + (12 + l)"
  by (auto simp: chunk_body_def Let_def split: sum.splits option.splits if_splits)

lemma chunk_body_advances:
  assumes "chunk_body data i chunks = Inr (i', chunks')"
  shows "i' = i + 12 + be_nat (slice data i (i + 4)) \<and> i + 12 \<le> i'"
proof -
  from chunk_body_offset [OF assms] obtain l
    where l: "unpack_I (slice data i (i + 4)) = Inr l" "i' = i + (12 + l)" by blast
  from unpack_I_value [OF l(1)] l(2) show ?thesis by simp
qed

lemma fuel_step:
  fixes len i i' m :: nat
  assumes "(len - i + 11) div 12 < Suc m" and "i < len" and "i + 12 \<le> i'"
  shows "(len - i' + 11) div 12 < m"
proof -
  define x where "x = len - i' + 11"
  define y where "y = len - i + 11"
  from assms(1) have y: "y div 12 < Suc m" by (simp only: y_def)
  have "x div 12 < m"
  proof (cases "i' < len")
    case True
    with assms(3) have "x + 12 \<le> y" by (simp add: x_def y_def)
    then have "(x + 12) div 12 \<le> y div 12" by (rule div_le_mono)
    moreover have "(x + 12) div 12 = Suc (x div 12)" by simp
    ultimately show ?thesis using y by simp
  next
    case False
    then have "x div 12 = 0" by (simp add: x_def)
    moreover from assms(2) have "12 \<le> y" by (simp add: y_def)
    then have "12 div 12 \<le> y div 12" by (rule div_le_mono)
    with y have "0 < m" by simp
    ultimately show ?thesis by simp
  qed
  then show ?thesis by (simp only: x_def)
qed

lemma chunk_loop_fuel_enough:
  "(length data - i + 11) div 12 < n \<Longrightarrow>
   chunk_loop_fuel n data i chunks = Some (chunk_loop data i chunks)"
proof (induction data i chunks arbitrary: n rule: chunk_loop.induct)
  case (1 data i chunks)
  from "1.prems" obtain m where n: "n = Suc m" by (cases n) auto
  show ?case
  proof (cases "i < length data")
    case False
    then show ?thesis by (simp add: n chunk_loop.simps)
  next
    case True
    show ?thesis
    proof (cases "chunk_body data i chunks")
      case (Inl e)
      with True show ?thesis by (simp add: n chunk_loop.simps)
    next
      case (Inr st)
      obtain i' chunks' where st: "st = (i', chunks')" by (cases st)
      from chunk_body_advances [OF Inr [unfolded st]] have "i + 12 \<le> i'" by simp
      moreover from "1.prems" have "(length data - i + 11) div 12 < Suc m"
        unfolding n .
      ultimately have "(length data - i' + 11) div 12 < m"
        using True by (rule fuel_step [rotated 2])
      from "1.IH" [OF True Inr st [symmetric] this]
      have "chunk_loop_fuel m data i' chunks' = Some (chunk_loop data i' chunks')" .
      with True Inr st show ?thesis
        by (simp add: n chunk_loop.simps [of data i chunks])
    qed
  qed
qed

text \<open>
  Claim C10. The chunk loop ends on every byte buffer: an iteration that raises nothing
  moves the offset forward by 12 plus the declared length, so by at least 12, and the
  loop has left (with a result or an exception) after at most
  \<open>(length data - i + 11) div 12\<close> iterations and one more test of its condition.
\<close>

theorem chunk_loop_terminates:
  "chunk_loop_fuel (Suc ((length data - i + 11) div 12)) data i chunks
     = Some (chunk_loop data i chunks) \<and>
   (case chunk_body data i chunks of
      Inl e \<Rightarrow> True
    | Inr (i', chunks') \<Rightarrow> i' = i + 12 + be_nat (slice data i (i + 4)) \<and> i + 12 \<le> i')"
proof
  show "chunk_loop_fuel (Suc ((length data - i + 11) div 12)) data i chunks
          = Some (chunk_loop data i chunks)"
    by (rule chunk_loop_fuel_enough) simp
next
  show "case chunk_body data i chunks of
          Inl e \<Rightarrow> True
        | Inr (i', chunks') \<Rightarrow> i' = i + 12 + be_nat (slice data i (i + 4)) \<and> i + 12 \<le> i'"
    using chunk_body_advances [of data i chunks]
    by (auto split: sum.splits)
qed

lemma png_plain_length: "length png_plain = 67"
  by (simp add: png_plain_def png_sig_def idat_0_18_def png_iend_def)

theorem chunk_loop_terminates_witness:
  "chunk_loop_fuel 6 png_plain 8 Map.empty = Some (chunk_loop png_plain 8 Map.empty)"
  using chunk_loop_terminates [of png_plain 8 Map.empty]
  by (simp add: png_plain_length)

subsection \<open>A chunk that runs past the end of the buffer\<close>

text \<open>
  Claim C6, as the code has it. The payload is taken with a slice, and a slice is cut
  at the end of the buffer: when the declared length of a chunk reaches past the end,
  the chunk gets the bytes that remain as its payload, the loop ends there, and no
  exception is raised.
\<close>

theorem chunk_past_end_is_cut:
  assumes "i < length data"
    and "unpack_I (slice data i (i + 4)) = Inr l"
    and "decode_ascii (slice data (i + 4) (i + 8)) = Inr ct"
    and "length data < i + 8 + l"
  shows "chunk_loop data i chunks
         = Inr (chunks(ct \<mapsto> (case chunks ct of None \<Rightarrow> [] | Some ps \<Rightarrow> ps) @ [drop (i + 8) data]))"
proof -
  let ?chunks = "chunks(ct \<mapsto> (case chunks ct of None \<Rightarrow> [] | Some ps \<Rightarrow> ps) @ [drop (i + 8) data])"
  from assms(4) have "slice data (i + 8) (i + 8 + l) = drop (i + 8) data"
    by (simp add: slice_def)
  with assms(2,3) have body: "chunk_body data i chunks = Inr (i + (12 + l), ?chunks)"
    by (auto simp: chunk_body_def Let_def split: option.splits)
  from assms(4) have "\<not> i + (12 + l) < length data" by simp
  then have "chunk_loop data (i + (12 + l)) ?chunks = Inr ?chunks"
    by (simp add: chunk_loop.simps)
  with assms(1) body show ?thesis
    by (simp add: chunk_loop.simps [of data i chunks])
qed

theorem chunk_past_end_is_cut_witness:
  "chunk_loop png_truncated 33 [''IHDR'' \<mapsto> [[0, 0, 0, 2, 0, 0, 0, 1, 4, 3, 0, 0, 0]]]
   = Inr [''IHDR'' \<mapsto> [[0, 0, 0, 2, 0, 0, 0, 1, 4, 3, 0, 0, 0]],
          ''IDAT'' \<mapsto> [[120, 156, 99, 16, 2, 0, 0, 20, 0, 19]]]"
proof -
  have h1: "33 < length png_truncated"
    by (simp add: png_truncated_def png_sig_def)
  have h2: "unpack_I (slice png_truncated 33 (33 + 4)) = Inr 1000"
    by (simp add: png_truncated_def png_sig_def slice_def unpack_I_def be_nat_def)
  have h3: "decode_ascii (slice png_truncated (33 + 4) (33 + 8)) = Inr ''IDAT''"
    by (simp add: png_truncated_def png_sig_def slice_def decode_ascii_IDAT)
  have h4: "length png_truncated < 33 + 8 + 1000"
    by (simp add: png_truncated_def png_sig_def)
  from chunk_past_end_is_cut [OF h1 h2 h3 h4,
      of "[''IHDR'' \<mapsto> [[0, 0, 0, 2, 0, 0, 0, 1, 4, 3, 0, 0, 0]]]"]
  show ?thesis
    by (simp add: png_truncated_def png_sig_def)
qed

text \<open>
  Claim C6 as stated fails: the file \<open>png_truncated\<close> has 51 bytes, its \<open>IDAT\<close> chunk at
  offset 33 declares 1000 bytes of payload, and it decodes to a grid.
\<close>

theorem truncated_chunk_counterexample:
  "load_png zlib_sample png_truncated = Inr ([[1, 2]], 2, 1) \<and>
   length png_truncated = 51 \<and>
   unpack_I (slice png_truncated 33 37) = Inr 1000"
  by code_simp

subsection \<open>The first eight bytes\<close>

lemma drop_eq_later:
  assumes "drop i xs = drop i ys" and "i \<le> j"
  shows "drop j xs = drop j ys"
proof -
  from assms(2) have "drop j xs = drop (j - i) (drop i xs)" "drop j ys = drop (j - i) (drop i ys)"
    by simp_all
  with assms(1) show ?thesis by simp
qed

lemma slice_eq_of_drop:
  assumes "drop i xs = drop i ys" and "i \<le> a"
  shows "slice xs a b = slice ys a b"
  using drop_eq_later [OF assms] by (simp add: slice_def)

lemma chunk_body_suffix:
  assumes "drop i d1 = drop i d2"
  shows "chunk_body d1 i chunks = chunk_body d2 i chunks"
proof -
  have e1: "slice d1 i (i + 4) = slice d2 i (i + 4)"
    and e2: "slice d1 (i + 4) (i + 8) = slice d2 (i + 4) (i + 8)"
    and e3: "\<And>l. slice d1 (i + 8) (i + 8 + l) = slice d2 (i + 8) (i + 8 + l)"
    using assms by (simp_all add: slice_eq_of_drop)
  show ?thesis by (simp only: chunk_body_def e1 e2 e3)
qed

lemma chunk_loop_suffix:
  "length d1 = length d2 \<Longrightarrow> drop i d1 = drop i d2 \<Longrightarrow>
   chunk_loop d1 i chunks = chunk_loop d2 i chunks"
proof (induction d1 i chunks rule: chunk_loop.induct)
  case (1 d1 i chunks)
  note body = chunk_body_suffix [OF "1.prems"(2), of chunks]
  show ?case
  proof (cases "i < length d1")
    case False
    with "1.prems"(1) show ?thesis by (simp add: chunk_loop.simps)
  next
    case True
    with "1.prems"(1) have True2: "i < length d2" by simp
    show ?thesis
    proof (cases "chunk_body d1 i chunks")
      case (Inl e)
      with body have Inl2: "chunk_body d2 i chunks = Inl e" by simp
      have "chunk_loop d1 i chunks = Inl e"
        using True Inl by (simp add: chunk_loop.simps [of d1 i chunks])
      moreover have "chunk_loop d2 i chunks = Inl e"
        using True2 Inl2 by (simp add: chunk_loop.simps [of d2 i chunks])
      ultimately show ?thesis by simp
    next
      case (Inr st)
      obtain i' chunks' where st: "st = (i', chunks')" by (cases st)
      from Inr body have Inr2: "chunk_body d2 i chunks = Inr st" by simp
      from chunk_body_advances [OF Inr [unfolded st]] have "i \<le> i'" by simp
      with "1.prems"(2) have "drop i' d1 = drop i' d2" by (rule drop_eq_later)
      from "1.IH" [OF True Inr st [symmetric] "1.prems"(1) this]
      have rec: "chunk_loop d1 i' chunks' = chunk_loop d2 i' chunks'" .
      have "chunk_loop d1 i chunks = chunk_loop d1 i' chunks'"
        using True Inr st by (simp add: chunk_loop.simps [of d1 i chunks])
      moreover have "chunk_loop d2 i chunks = chunk_loop d2 i' chunks'"
        using True2 Inr2 st by (simp add: chunk_loop.simps [of d2 i chunks])
      ultimately show ?thesis using rec by simp
    qed
  qed
qed

text \<open>
  Claim C7, as the code has it. The loop starts at offset 8 and nothing reads the bytes
  before it: two buffers of the same length that agree from offset 8 on decode to the
  same result, whatever their first eight bytes are. No exception is raised for a
  signature.
\<close>

theorem signature_not_read:
  assumes "length d1 = length d2" and "drop 8 d1 = drop 8 d2"
  shows "load_png decompress d1 = load_png decompress d2"
  using chunk_loop_suffix [OF assms, of Map.empty] by (simp add: load_png_def)

theorem signature_not_read_witness:
  "load_png zlib_sample png_badsig = load_png zlib_sample png_plain"
proof -
  have "length png_badsig = length png_plain" and "drop 8 png_badsig = drop 8 png_plain"
    by (simp_all add: png_badsig_def png_plain_def png_sig_def)
  then show ?thesis by (rule signature_not_read)
qed

text \<open>
  Claim C7 as stated fails: the file \<open>png_badsig\<close> starts with eight zero bytes and
  decodes to a grid.
\<close>

theorem bad_signature_counterexample:
  "take 8 png_badsig \<noteq> png_sig \<and>
   load_png zlib_sample png_badsig = Inr ([[1, 2]], 2, 1)"
  by code_simp

subsection \<open>The header bytes after width and height\<close>

lemma same_header_read_header:
  "same_header_start c1 c2 \<Longrightarrow> read_header c1 = read_header c2"
  by (auto simp: same_header_start_def read_header_def)

lemma same_header_read_raw:
  "same_header_start c1 c2 \<Longrightarrow> read_raw decompress c1 = read_raw decompress c2"
  by (simp add: same_header_start_def read_raw_def)

lemma chunk_body_unfold:
  "chunk_body data i chunks =
     (case unpack_I (slice data i (i + 4)) of
        Inl e \<Rightarrow> Inl e
      | Inr l \<Rightarrow>
          (case decode_ascii (slice data (i + 4) (i + 8)) of
             Inl e \<Rightarrow> Inl e
           | Inr ct \<Rightarrow>
               Inr (i + (12 + l),
                    chunks(ct \<mapsto> (case chunks ct of None \<Rightarrow> [] | Some ps \<Rightarrow> ps)
                                @ [slice data (i + 8) (i + 8 + l)]))))"
  by (auto simp: chunk_body_def Let_def split: sum.splits option.splits)

lemma same_header_add:
  assumes "same_header_start c1 c2"
  shows "same_header_start
           (c1(ct \<mapsto> (case c1 ct of None \<Rightarrow> [] | Some ps \<Rightarrow> ps) @ [p]))
           (c2(ct \<mapsto> (case c2 ct of None \<Rightarrow> [] | Some ps \<Rightarrow> ps) @ [p]))"
proof (cases "ct = ''IHDR''")
  case True
  with assms show ?thesis
    by (auto simp: same_header_start_def)
next
  case False
  with assms have "c1 ct = c2 ct" by (simp add: same_header_start_def)
  with assms False show ?thesis
    by (auto simp: same_header_start_def)
qed

lemma chunk_body_same_header:
  assumes "drop i d1 = drop i d2" and "same_header_start c1 c2"
  shows "(\<exists>e. chunk_body d1 i c1 = Inl e \<and> chunk_body d2 i c2 = Inl e) \<or>
         (\<exists>i' c1' c2'. chunk_body d1 i c1 = Inr (i', c1') \<and> chunk_body d2 i c2 = Inr (i', c2') \<and>
            same_header_start c1' c2')"
proof -
  have d: "chunk_body d2 i c2 = chunk_body d1 i c2"
    by (rule chunk_body_suffix [OF assms(1), symmetric])
  show ?thesis
  proof (cases "unpack_I (slice d1 i (i + 4))")
    case (Inl e)
    then show ?thesis unfolding d by (simp add: chunk_body_unfold)
  next
    case l: (Inr l)
    show ?thesis
    proof (cases "decode_ascii (slice d1 (i + 4) (i + 8))")
      case (Inl e)
      with l show ?thesis unfolding d by (simp add: chunk_body_unfold)
    next
      case (Inr ct)
      with l same_header_add [OF assms(2), of ct "slice d1 (i + 8) (i + 8 + l)"]
      show ?thesis unfolding d by (simp add: chunk_body_unfold)
    qed
  qed
qed

lemma chunk_loop_same_header:
  "length d1 = length d2 \<Longrightarrow> drop i d1 = drop i d2 \<Longrightarrow> same_header_start c1 c2 \<Longrightarrow>
   (\<exists>e. chunk_loop d1 i c1 = Inl e \<and> chunk_loop d2 i c2 = Inl e) \<or>
   (\<exists>c1' c2'. chunk_loop d1 i c1 = Inr c1' \<and> chunk_loop d2 i c2 = Inr c2' \<and>
      same_header_start c1' c2')"
proof (induction d1 i c1 arbitrary: c2 rule: chunk_loop.induct)
  case (1 d1 i c1)
  show ?case
  proof (cases "i < length d1")
    case False
    with "1.prems"(1,3) show ?thesis
      by (simp add: chunk_loop.simps)
  next
    case True
    with "1.prems"(1) have True2: "i < length d2" by simp
    from chunk_body_same_header [OF "1.prems"(2,3)]
    consider e where "chunk_body d1 i c1 = Inl e" "chunk_body d2 i c2 = Inl e"
      | i' c1' c2' where "chunk_body d1 i c1 = Inr (i', c1')" "chunk_body d2 i c2 = Inr (i', c2')"
          "same_header_start c1' c2'"
      by blast
    then show ?thesis
    proof cases
      case 1
      have "chunk_loop d1 i c1 = Inl e"
        using True 1(1) by (simp add: chunk_loop.simps [of d1 i c1])
      moreover have "chunk_loop d2 i c2 = Inl e"
        using True2 1(2) by (simp add: chunk_loop.simps [of d2 i c2])
      ultimately show ?thesis by simp
    next
      case 2
      from chunk_body_advances [OF 2(1)] have "i \<le> i'" by simp
      with "1.prems"(2) have later: "drop i' d1 = drop i' d2" by (rule drop_eq_later)
      have u1: "chunk_loop d1 i c1 = chunk_loop d1 i' c1'"
        using True 2(1) by (simp add: chunk_loop.simps [of d1 i c1])
      have u2: "chunk_loop d2 i c2 = chunk_loop d2 i' c2'"
        using True2 2(2) by (simp add: chunk_loop.simps [of d2 i c2])
      from "1.IH" [OF True 2(1) refl "1.prems"(1) later 2(3)]
      show ?thesis unfolding u1 u2 .
    qed
  qed
qed

lemma slice_take:
  assumes "b \<le> n"
  shows "slice (take n xs) a b = slice xs a b"
proof -
  from assms have "min (b - a) (n - a) = b - a" by simp
  then show ?thesis by (simp add: slice_def drop_take)
qed

lemma slice_eq_of_take:
  assumes "take n xs = take n ys" and "b \<le> n"
  shows "slice xs a b = slice ys a b"
proof -
  have "slice xs a b = slice (take n xs) a b" "slice ys a b = slice (take n ys) a b"
    using assms(2) by (simp_all add: slice_take)
  with assms(1) show ?thesis by simp
qed

text \<open>
  Claim C8, as the code has it. Of the header chunk the decoder reads the first eight
  payload bytes, the width and the height, and nothing else: not the bit depth, the
  colour type, the compression, filter or interlace method, nor the checksum. Two
  buffers of the same length whose first chunk is \<open>IHDR\<close> and which differ only in
  that chunk after its first eight payload bytes (offsets 24 up to the end of the
  chunk) decode to the same result. No exception is raised for a header field.
\<close>

theorem header_tail_not_read:
  assumes "length d1 = length d2" and "take 24 d1 = take 24 d2"
    and "decode_ascii (slice d1 12 16) = Inr ''IHDR''"
    and "drop (20 + be_nat (slice d1 8 12)) d1 = drop (20 + be_nat (slice d1 8 12)) d2"
  shows "load_png decompress d1 = load_png decompress d2"
proof (cases "length d1 \<le> 24")
  case True
  with assms(1) have "take 24 d1 = d1" "take 24 d2 = d2" by simp_all
  with assms(2) show ?thesis by simp
next
  case False
  define l where "l = be_nat (slice d1 8 12)"
  let ?p1 = "slice d1 16 (16 + l)" and ?p2 = "slice d2 16 (16 + l)"
  let ?c1 = "[''IHDR'' \<mapsto> [?p1]]" and ?c2 = "[''IHDR'' \<mapsto> [?p2]]"
  from False assms(1) have long: "8 < length d1" "8 < length d2" by simp_all
  have len1: "slice d1 8 12 = slice d2 8 12"
    using assms(2) by (rule slice_eq_of_take) simp
  have ty: "slice d1 12 16 = slice d2 12 16"
    using assms(2) by (rule slice_eq_of_take) simp
  from False have "length (slice d1 8 12) = 4" by (simp add: slice_def)
  then have u1: "unpack_I (slice d1 8 12) = Inr l"
    by (simp add: unpack_I_def l_def)
  with len1 have u2: "unpack_I (slice d2 8 12) = Inr l" by simp
  from assms(3) ty have t2: "decode_ascii (slice d2 12 16) = Inr ''IHDR''" by simp
  have b1: "chunk_body d1 8 Map.empty = Inr (20 + l, ?c1)"
    using u1 assms(3) by (simp add: chunk_body_unfold)
  have b2: "chunk_body d2 8 Map.empty = Inr (20 + l, ?c2)"
    using u2 t2 by (simp add: chunk_body_unfold)
  have s1: "chunk_loop d1 8 Map.empty = chunk_loop d1 (20 + l) ?c1"
    using long(1) b1 by (simp add: chunk_loop.simps [of d1 8 Map.empty])
  have s2: "chunk_loop d2 8 Map.empty = chunk_loop d2 (20 + l) ?c2"
    using long(2) b2 by (simp add: chunk_loop.simps [of d2 8 Map.empty])
  have "slice ?p1 0 8 = slice d1 16 (16 + min 8 l)" "slice ?p2 0 8 = slice d2 16 (16 + min 8 l)"
    by (simp_all add: slice_def min.commute)
  moreover have "slice d1 16 (16 + min 8 l) = slice d2 16 (16 + min 8 l)"
    using assms(2) by (rule slice_eq_of_take) simp
  ultimately have rel: "same_header_start ?c1 ?c2"
    by (simp add: same_header_start_def)
  from assms(4) have later: "drop (20 + l) d1 = drop (20 + l) d2"
    by (simp only: l_def)
  from chunk_loop_same_header [OF assms(1) later rel]
  consider e where "chunk_loop d1 8 Map.empty = Inl e" "chunk_loop d2 8 Map.empty = Inl e"
    | c1' c2' where "chunk_loop d1 8 Map.empty = Inr c1'" "chunk_loop d2 8 Map.empty = Inr c2'"
        "same_header_start c1' c2'"
    unfolding s1 s2 by blast
  then show ?thesis
  proof cases
    case 1
    then show ?thesis by (simp add: load_png_def)
  next
    case 2
    note h = same_header_read_header [OF 2(3)]
      and r = same_header_read_raw [OF 2(3), of decompress]
    show ?thesis
      by (simp add: load_png_def 2(1,2) h r cong: sum.case_cong)
  qed
qed

theorem header_tail_not_read_witness:
  "load_png zlib_sample png_rgb16 = load_png zlib_sample png_plain"
proof -
  have h1: "length png_rgb16 = length png_plain"
    and h2: "take 24 png_rgb16 = take 24 png_plain"
    and h3: "decode_ascii (slice png_rgb16 12 16) = Inr ''IHDR''"
    by (simp_all add: png_rgb16_def png_plain_def png_sig_def slice_def decode_ascii_IHDR)
  have l: "be_nat (slice png_rgb16 8 12) = 13"
    by (simp add: png_rgb16_def png_sig_def slice_def be_nat_def)
  have h4: "drop (20 + be_nat (slice png_rgb16 8 12)) png_rgb16
            = drop (20 + be_nat (slice png_rgb16 8 12)) png_plain"
    unfolding l by (simp add: png_rgb16_def png_plain_def png_sig_def)
  from h1 h2 h3 h4 show ?thesis by (rule header_tail_not_read)
qed

text \<open>
  Claim C8 as stated fails: the header of \<open>png_rgb16\<close> has bit depth 16, colour type 2
  (truecolour) and interlace method 1, and the file decodes to a grid.
\<close>

theorem unsupported_header_counterexample:
  "png_rgb16 ! 24 = 16 \<and> png_rgb16 ! 25 = 2 \<and> png_rgb16 ! 28 = 1 \<and>
   load_png zlib_sample png_rgb16 = Inr ([[1, 2]], 2, 1)"
  by code_simp

section \<open>The reconstructed rows of a decode\<close>

lemma row_body_rebuilt:
  assumes "idx + rb < length raw" and "length prev = rb"
  shows "\<exists>out. row_body W rb raw y (idx, prev, pixels)
             = Inr (idx + 1 + rb, out, pixels @ [take W (unpack_px out)]) \<and>
           length out = rb \<and>
           (\<forall>c. c < rb \<longrightarrow> out ! c = rebuilt_byte raw idx prev out c)"
proof -
  let ?row = "map uint (slice raw (idx + 1) (idx + 1 + rb))"
  have len: "length ?row = rb" using assms(1) by (simp add: slice_full_length)
  have nth: "\<And>c. c < rb \<Longrightarrow> ?row ! c = uint (raw ! (idx + 1 + c))"
    using assms(1) by (simp add: slice_def)
  have tag: "idx < length raw" using assms(1) by simp
  consider "raw ! idx = 1" | "raw ! idx \<noteq> 1" "raw ! idx = 2" | "raw ! idx \<noteq> 1" "raw ! idx \<noteq> 2"
    by blast
  then show ?thesis
  proof cases
    case 1
    from sub_loop_prefix [of rb ?row] len
    obtain out where out: "for_loop [1..<rb] sub_body ?row = Inr out" "length out = rb"
      "out ! 0 = ?row ! 0"
      "\<forall>c. 1 \<le> c \<and> c < rb \<longrightarrow> out ! c = (?row ! c + out ! (c - 1)) mod 256"
      by auto
    have run: "row_body W rb raw y (idx, prev, pixels)
               = Inr (idx + 1 + rb, out, pixels @ [take W (unpack_px out)])"
      using tag 1 out(1) by (simp add: row_body_def defilter_def Let_def)
    have "out ! c = rebuilt_byte raw idx prev out c" if c: "c < rb" for c
    proof (cases "c = 0")
      case True
      have "uint (raw ! (idx + 1)) mod 256 = uint (raw ! (idx + 1))"
        using uint_bounded [of "raw ! (idx + 1)"] by simp
      with True c out(3) nth [of 0] 1 show ?thesis by (simp add: rebuilt_byte_def)
    next
      case False
      with c out(4) nth [of c] 1 show ?thesis by (simp add: rebuilt_byte_def)
    qed
    with run out(2) show ?thesis by blast
  next
    case 2
    from up_loop_prefix [of rb ?row prev] len assms(2)
    obtain out where out: "for_loop [0..<rb] (up_body prev) ?row = Inr out" "length out = rb"
      "\<forall>c. c < rb \<longrightarrow> out ! c = (?row ! c + prev ! c) mod 256"
      by auto
    have run: "row_body W rb raw y (idx, prev, pixels)
               = Inr (idx + 1 + rb, out, pixels @ [take W (unpack_px out)])"
      using tag 2 out(1) by (simp add: row_body_def defilter_def Let_def)
    have "out ! c = rebuilt_byte raw idx prev out c" if c: "c < rb" for c
      using out(3) nth [OF c] c 2 by (simp add: rebuilt_byte_def)
    with run out(2) show ?thesis by blast
  next
    case 3
    have run: "row_body W rb raw y (idx, prev, pixels)
               = Inr (idx + 1 + rb, ?row, pixels @ [take W (unpack_px ?row)])"
      using tag 3 by (simp add: row_body_def defilter_def Let_def)
    have "?row ! c = rebuilt_byte raw idx prev ?row c" if c: "c < rb" for c
      using nth [OF c] 3 by (simp only: rebuilt_byte_def if_False)
    with run len show ?thesis by blast
  qed
qed

lemma rows_loop_rebuilt:
  "idx + length ys * (1 + rb) \<le> length raw \<Longrightarrow> length prev = rb \<Longrightarrow>
   \<exists>rows. for_loop ys (row_body W rb raw) (idx, prev, pixels)
            = Inr (idx + length ys * (1 + rb), last (prev # rows),
                   pixels @ map (\<lambda>r. take W (unpack_px r)) rows) \<and>
          length rows = length ys \<and>
          (\<forall>k. k < length ys \<longrightarrow> length (rows ! k) = rb \<and>
             (\<forall>c. c < rb \<longrightarrow> rows ! k ! c =
                rebuilt_byte raw (idx + k * (1 + rb)) ((prev # rows) ! k) (rows ! k) c))"
proof (induction ys arbitrary: idx prev pixels)
  case Nil
  then show ?case by simp
next
  case (Cons y ys)
  from Cons.prems(1) have here: "idx + rb < length raw" by simp
  from row_body_rebuilt [OF here Cons.prems(2), of W y pixels]
  obtain out where out:
    "row_body W rb raw y (idx, prev, pixels)
       = Inr (idx + 1 + rb, out, pixels @ [take W (unpack_px out)])"
    "length out = rb"
    "\<forall>c. c < rb \<longrightarrow> out ! c = rebuilt_byte raw idx prev out c"
    by blast
  let ?idx = "idx + 1 + rb"
  from Cons.prems(1) have "?idx + length ys * (1 + rb) \<le> length raw" by simp
  from Cons.IH [OF this out(2), of "pixels @ [take W (unpack_px out)]"]
  obtain rows where rows:
    "for_loop ys (row_body W rb raw) (?idx, out, pixels @ [take W (unpack_px out)])
       = Inr (?idx + length ys * (1 + rb), last (out # rows),
              (pixels @ [take W (unpack_px out)]) @ map (\<lambda>r. take W (unpack_px r)) rows)"
    "length rows = length ys"
    "\<forall>k. k < length ys \<longrightarrow> length (rows ! k) = rb \<and>
       (\<forall>c. c < rb \<longrightarrow> rows ! k ! c =
          rebuilt_byte raw (?idx + k * (1 + rb)) ((out # rows) ! k) (rows ! k) c)"
    by blast
  let ?rows = "out # rows"
  have run: "for_loop (y # ys) (row_body W rb raw) (idx, prev, pixels)
             = Inr (idx + length (y # ys) * (1 + rb), last (prev # ?rows),
                    pixels @ map (\<lambda>r. take W (unpack_px r)) ?rows)"
    using out(1) rows(1) by simp
  have len: "length ?rows = length (y # ys)" using rows(2) by simp
  have each: "length (?rows ! k) = rb \<and>
       (\<forall>c. c < rb \<longrightarrow> ?rows ! k ! c =
          rebuilt_byte raw (idx + k * (1 + rb)) ((prev # ?rows) ! k) (?rows ! k) c)"
    if k: "k < length (y # ys)" for k
  proof (cases k)
    case 0
    with out(2,3) show ?thesis by simp
  next
    case (Suc k')
    with k have k': "k' < length ys" by simp
    have off: "idx + Suc k' * (1 + rb) = ?idx + k' * (1 + rb)" by simp
    from rows(3) [rule_format, OF k'] show ?thesis
      unfolding Suc off by simp
  qed
  show ?case
  proof (intro exI conjI allI impI)
    show "for_loop (y # ys) (row_body W rb raw) (idx, prev, pixels)
             = Inr (idx + length (y # ys) * (1 + rb), last (prev # ?rows),
                    pixels @ map (\<lambda>r. take W (unpack_px r)) ?rows)"
      by (rule run)
    show "length ?rows = length (y # ys)" by (rule len)
  next
    fix k assume "k < length (y # ys)"
    from each [OF this] show "length (?rows ! k) = rb" ..
  next
    fix k c assume "k < length (y # ys)" and c: "c < rb"
    from each [OF this(1)] c
    show "?rows ! k ! c = rebuilt_byte raw (idx + k * (1 + rb)) ((prev # ?rows) ! k) (?rows ! k) c"
      by blast
  qed
qed

lemma prev_of_first_row:
  "c < rb \<Longrightarrow> (replicate rb (0 :: int) # rows) ! y ! c = (if y = 0 then 0 else rows ! (y - 1) ! c)"
  by (cases y) simp_all

text \<open>
  Claim C3. On a raw stream that holds all \<open>H\<close> rows, the decode succeeds and its grid
  is the unpacking of rows \<open>rows ! 0\<close>, ..., \<open>rows ! (H - 1)\<close> of \<open>rb\<close> bytes each, the
  rows rebuilt by the scanline loop: a row whose filter tag is 2 (Up) has in every
  column \<open>c\<close> the stored byte plus column \<open>c\<close> of the previous row, modulo 256, where
  the previous row of row \<open>y\<close> is the rebuilt row \<open>y - 1\<close>, and for row 0 it is the
  all-zero row of \<open>rb\<close> bytes that the decode starts from. (The other two branches say
  what the rebuilt rows are for the remaining tags: Sub for tag 1, the stored bytes
  otherwise.)
\<close>

theorem up_rows_of_decode:
  fixes W H :: nat and raw :: "byte list"
  defines "rb \<equiv> (W * 4 + 7) div 8"
  assumes "H * (1 + rb) \<le> length raw"
  shows "\<exists>rows. decode_rows W H raw = Inr (map (\<lambda>r. take W (unpack_px r)) rows) \<and>
           length rows = H \<and>
           (\<forall>y. y < H \<longrightarrow> length (rows ! y) = rb \<and>
              (\<forall>c. c < rb \<longrightarrow> rows ! y ! c =
                 (if raw ! (y * (1 + rb)) = 1
                  then (uint (raw ! (y * (1 + rb) + 1 + c))
                        + (if c = 0 then 0 else rows ! y ! (c - 1))) mod 256
                  else if raw ! (y * (1 + rb)) = 2
                  then (uint (raw ! (y * (1 + rb) + 1 + c))
                        + (if y = 0 then 0 else rows ! (y - 1) ! c)) mod 256
                  else uint (raw ! (y * (1 + rb) + 1 + c)))))"
proof -
  have "0 + length [0..<H] * (1 + rb) \<le> length raw" using assms(2) by simp
  from rows_loop_rebuilt [OF this, of "replicate rb 0" W "[]"]
  obtain rows where rows:
    "for_loop [0..<H] (row_body W rb raw) (0, replicate rb 0, [])
       = Inr (0 + length [0..<H] * (1 + rb), last (replicate rb 0 # rows),
              [] @ map (\<lambda>r. take W (unpack_px r)) rows)"
    "length rows = length [0..<H]"
    "\<forall>k. k < length [0..<H] \<longrightarrow> length (rows ! k) = rb \<and>
       (\<forall>c. c < rb \<longrightarrow> rows ! k ! c =
          rebuilt_byte raw (0 + k * (1 + rb)) ((replicate rb 0 # rows) ! k) (rows ! k) c)"
    by (auto simp del: upt_Suc)
  have dec: "decode_rows W H raw = Inr (map (\<lambda>r. take W (unpack_px r)) rows)"
    using rows(1) by (simp add: decode_rows_def Let_def rb_def)
  have len: "length rows = H" using rows(2) by simp
  show ?thesis
  proof (intro exI conjI allI impI)
    show "decode_rows W H raw = Inr (map (\<lambda>r. take W (unpack_px r)) rows)" by (rule dec)
    show "length rows = H" by (rule len)
  next
    fix y assume "y < H"
    with rows(3) show "length (rows ! y) = rb" by simp
  next
    fix y c assume y: "y < H" and c: "c < rb"
    from rows(3) y c
    have "rows ! y ! c = rebuilt_byte raw (y * (1 + rb)) ((replicate rb 0 # rows) ! y) (rows ! y) c"
      by simp
    then show "rows ! y ! c =
                 (if raw ! (y * (1 + rb)) = 1
                  then (uint (raw ! (y * (1 + rb) + 1 + c))
                        + (if c = 0 then 0 else rows ! y ! (c - 1))) mod 256
                  else if raw ! (y * (1 + rb)) = 2
                  then (uint (raw ! (y * (1 + rb) + 1 + c))
                        + (if y = 0 then 0 else rows ! (y - 1) ! c)) mod 256
                  else uint (raw ! (y * (1 + rb) + 1 + c)))"
      unfolding rebuilt_byte_def prev_of_first_row [OF c] .
  qed
qed

theorem up_rows_of_decode_witness:
  "\<exists>rows. decode_rows 3 2 [2, 255, 2, 2, 1, 16] = Inr (map (\<lambda>r. take 3 (unpack_px r)) rows) \<and>
     length rows = 2 \<and>
     rows ! 0 ! 0 = 255 \<and> rows ! 0 ! 1 = 2 \<and> rows ! 1 ! 0 = 0 \<and> rows ! 1 ! 1 = 18"
proof -
  let ?raw = "[2, 255, 2, 2, 1, 16 :: byte]"
  have rb: "(3 * 4 + 7) div 8 = (2 :: nat)" by simp
  have h: "2 * (1 + (3 * 4 + 7) div 8) \<le> length ?raw" by simp
  from up_rows_of_decode [OF h] obtain rows where rows:
    "decode_rows 3 2 ?raw = Inr (map (\<lambda>r. take 3 (unpack_px r)) rows)"
    "length rows = 2"
    "\<forall>y. y < 2 \<longrightarrow> length (rows ! y) = 2 \<and>
       (\<forall>c. c < 2 \<longrightarrow> rows ! y ! c =
          (if ?raw ! (y * (1 + 2)) = 1
           then (uint (?raw ! (y * (1 + 2) + 1 + c))
                 + (if c = 0 then 0 else rows ! y ! (c - 1))) mod 256
           else if ?raw ! (y * (1 + 2)) = 2
           then (uint (?raw ! (y * (1 + 2) + 1 + c))
                 + (if y = 0 then 0 else rows ! (y - 1) ! c)) mod 256
           else uint (?raw ! (y * (1 + 2) + 1 + c))))"
    unfolding rb by blast
  from rows(3) [rule_format, of 0] have r0: "\<forall>c. c < 2 \<longrightarrow> rows ! 0 ! c =
      (uint (?raw ! (1 + c)) + 0) mod 256"
    by simp
  from r0 [rule_format, of 0] have a: "rows ! 0 ! 0 = 255" by simp
  from r0 [rule_format, of 1] have b: "rows ! 0 ! 1 = 2" by simp
  from rows(3) [rule_format, of 1] have r1: "\<forall>c. c < 2 \<longrightarrow> rows ! 1 ! c =
      (uint (?raw ! (4 + c)) + rows ! 0 ! c) mod 256"
    by simp
  from r1 [rule_format, of 0] a have c: "rows ! 1 ! 0 = 0" by simp
  from r1 [rule_format, of 1] b have d: "rows ! 1 ! 1 = 18" by simp
  from rows(1,2) a b c d show ?thesis by blast
qed

subsection \<open>The packing at bit depth 4\<close>

lemma upt_0_2: "[0..<2] = [0, Suc 0]"
  by (simp add: numeral_2_eq_2)

lemma pack_bits_4_bytes:
  "pack_bits 4 row =
     map (\<lambda>j. word_of_int ((if j * 2 < length row then row ! (j * 2) * 16 else 0)
                            + (if j * 2 + 1 < length row then row ! (j * 2 + 1) else 0)))
         [0..<(length row * 4 + 7) div 8]"
  by (simp add: pack_bits_def upt_0_2)

lemma pack_bits_4: "pack_bits 4 row = pack4 row"
proof (induction row rule: pack4.induct)
  case 1
  show ?case by (simp add: pack_bits_4_bytes)
next
  case (2 a)
  show ?case by (simp add: pack_bits_4_bytes)
next
  case (3 a b r)
  have n: "(length (a # b # r) * 4 + 7) div 8 = Suc ((length r * 4 + 7) div 8)"
    by simp
  have "pack_bits 4 (a # b # r) = word_of_int (a * 16 + b) # pack_bits 4 r"
    unfolding pack_bits_4_bytes n map_upt_Suc by simp
  with 3 show ?case by simp
qed

lemma encode_depth_4: "encode_depth 4 grid = encode_rows grid"
  by (simp add: encode_depth_def encode_rows_def pack_bits_4)

text \<open>
  Claim C5, as the code has it. The decoder unpacks 4 bits per pixel whatever the grid's
  bit depth is, so the round trip holds for bit depth 4: a grid of \<open>W\<close>-entry rows of
  indices (each at least 0 and below \<open>2 ^ 4\<close>), packed at bit depth 4 with every row
  prefixed by the filter tag 0, decodes to the same grid. The scanline loop leaves the
  bytes of a tag 0 row as they are and the unpacking inverts the packing.
\<close>

theorem roundtrip_depth4:
  assumes "\<forall>row \<in> set grid. length row = W \<and> (\<forall>v \<in> set row. 0 \<le> v \<and> v < 2 ^ 4)"
  shows "decode_rows W (length grid) (encode_depth 4 grid) = Inr grid"
proof -
  from assms have "\<forall>row \<in> set grid. length row = W \<and> (\<forall>v \<in> set row. 0 \<le> v \<and> v < 16)"
    by simp
  then have "decode_rows W (length grid) (encode_rows grid) = Inr grid"
    by (rule roundtrip_pack4)
  then show ?thesis by (simp only: encode_depth_4)
qed

theorem roundtrip_depth4_witness:
  "encode_depth 4 [[1, 2, 3], [15, 0, 7]] = [0, 18, 48, 0, 240, 112] \<and>
   decode_rows 3 2 [0, 18, 48, 0, 240, 112] = Inr [[1, 2, 3], [15, 0, 7]]"
proof -
  have h: "\<forall>row \<in> set [[1, 2, 3], [15, 0, 7 :: int]].
             length row = 3 \<and> (\<forall>v \<in> set row. 0 \<le> v \<and> v < 2 ^ 4)"
    by simp
  have e: "encode_depth 4 [[1, 2, 3], [15, 0, 7]] = [0, 18, 48, 0, 240, 112]"
    by code_simp
  have l: "length [[1, 2, 3], [15, 0, 7 :: int]] = 2"
    by simp
  from roundtrip_depth4 [OF h]
  have "decode_rows 3 2 [0, 18, 48, 0, 240, 112] = Inr [[1, 2, 3], [15, 0, 7]]"
    unfolding e l .
  with e show ?thesis by simp
qed

text \<open>
  Claim C5 as stated fails for grids of another bit depth. The 8-bit grid with the one
  entry 200 is packed as the byte 200 and decodes to the entry 12; the 1-bit row
  \<open>1, 0, 1, 1, 0, 0, 1, 0\<close> is packed as the byte 178 and decodes to the two entries
  11 and 2.
\<close>

theorem roundtrip_other_depth_counterexample:
  "encode_depth 8 [[200]] = [0, 200] \<and>
   decode_rows 1 1 (encode_depth 8 [[200]]) = Inr [[12]] \<and>
   [[12]] \<noteq> [[200 :: int]] \<and>
   encode_depth 1 [[1, 0, 1, 1, 0, 0, 1, 0]] = [0, 178] \<and>
   decode_rows 8 1 (encode_depth 1 [[1, 0, 1, 1, 0, 0, 1, 0]]) = Inr [[11, 2]] \<and>
   [[11, 2]] \<noteq> [[1, 0, 1, 1, 0, 0, 1, 0 :: int]]"
  by code_simp

end
